theory Spec2Isabelle
  imports Main "HOL-Library.Word"
begin

unbundle bit_operations_syntax

section \<open>Data model of PWMReceiver\<close>

text \<open>
  \<^verbatim>\<open>#define PINS_COUNT 16\<close> (PWMReceiver.h, line 13).
\<close>

definition PINS_COUNT :: nat where
  "PINS_COUNT = 16"

text \<open>
  The three function-pointer types of PWMReceiver.h, lines 15--17. The pointees are
  user-supplied C functions, so each of them may read and write the application's own
  variables: a call is a transformer of the application state \<open>'u\<close>, which is disjoint
  from the receiver's private and static members (user code has no access to them; a
  user function that calls \<open>attach\<close> or \<open>detach\<close> on the receiver from inside the
  dispatch loop is not covered). \<open>unsigned long\<close> is \<open>'w word\<close>: 32 bits on the AVR
  boards, kept as a parameter. Pin numbers (\<open>uint8_t\<close>, \<open>int\<close> in the loop) are
  natural numbers.
\<close>

type_synonym ('w, 'u) OnChangeFunc = "'w word \<Rightarrow> 'u \<Rightarrow> 'u"
type_synonym ('w, 'u) FilterFunc = "'w word \<Rightarrow> 'u \<Rightarrow> bool \<times> 'u"
type_synonym ('w, 'u) TransformFunc = "'w word \<Rightarrow> 'u \<Rightarrow> 'w word \<times> 'u"

text \<open>
  The members of class PWMReceiver (PWMReceiver.h, lines 31--37; the leading underscore
  of the C++ names is dropped). Each array of \<open>PINS_COUNT\<close> cells is a function of the
  index; every access below checks the index against \<open>PINS_COUNT\<close> first.
  \<open>interruptEnabled\<close> is the state of the EnableInterrupt library that
  \<open>enableInterrupt\<close> and \<open>disableInterrupt\<close> change: the pins whose level changes
  are delivered to the handler.
\<close>

record (overloaded) ('w, 'u) receiver =
  onChangeFunctions :: "nat \<Rightarrow> ('w, 'u) OnChangeFunc"
  filterFunctions :: "nat \<Rightarrow> ('w, 'u) FilterFunc"
  transformFunctions :: "nat \<Rightarrow> ('w, 'u) TransformFunc"
  waveStarts :: "nat \<Rightarrow> 'w word"
  currentValues :: "nat \<Rightarrow> 'w word"
  changedFlags :: "16 word"
  interruptEnabled :: "nat \<Rightarrow> bool"

section \<open>The library's own filter, transform and handler functions\<close>

text \<open>PWMReceiver.cpp, lines 157--178.\<close>

definition any :: "('w::len, 'u) FilterFunc" where
  "any v u = (True, u)"

definition none :: "('w::len, 'u) FilterFunc" where
  "none v u = (False, u)"

definition identity :: "('w::len, 'u) TransformFunc" where
  "identity v u = (v, u)"

definition void_fn :: "('w::len, 'u) OnChangeFunc" where
  "void_fn v u = u"

section \<open>attach and detach\<close>

text \<open>
  The four-argument \<open>attach\<close> (lines 77--82). A pin outside the arrays is an
  out-of-bounds store, undefined behaviour in C++: the model returns \<open>None\<close>.
\<close>

definition attach4 ::
  "nat \<Rightarrow> ('w::len, 'u) OnChangeFunc \<Rightarrow> ('w, 'u) FilterFunc \<Rightarrow> ('w, 'u) TransformFunc
     \<Rightarrow> ('w, 'u) receiver \<Rightarrow> ('w, 'u) receiver option" where
  "attach4 arduinoPin onChangeFunc filterFunc transformFunc r =
     (if arduinoPin < PINS_COUNT then
        Some (r\<lparr>interruptEnabled := (interruptEnabled r)(arduinoPin := True),
                onChangeFunctions := (onChangeFunctions r)(arduinoPin := onChangeFunc),
                filterFunctions := (filterFunctions r)(arduinoPin := filterFunc),
                transformFunctions := (transformFunctions r)(arduinoPin := transformFunc)\<rparr>)
      else None)"

text \<open>The three-argument overload (lines 65--67) passes \<open>identity\<close>.\<close>

definition attach3 ::
  "nat \<Rightarrow> ('w::len, 'u) OnChangeFunc \<Rightarrow> ('w, 'u) FilterFunc
     \<Rightarrow> ('w, 'u) receiver \<Rightarrow> ('w, 'u) receiver option" where
  "attach3 arduinoPin onChangeFunc filterFunc r =
     attach4 arduinoPin onChangeFunc filterFunc identity r"

text \<open>The two-argument overload (lines 53--55) passes \<open>any\<close>.\<close>

definition attach2 ::
  "nat \<Rightarrow> ('w::len, 'u) OnChangeFunc \<Rightarrow> ('w, 'u) receiver \<Rightarrow> ('w, 'u) receiver option" where
  "attach2 arduinoPin onChangeFunc r = attach3 arduinoPin onChangeFunc any r"

text \<open>\<open>detach\<close> (lines 89--94).\<close>

definition detach :: "nat \<Rightarrow> ('w::len, 'u) receiver \<Rightarrow> ('w, 'u) receiver option" where
  "detach arduinoPin r =
     (if arduinoPin < PINS_COUNT then
        Some (r\<lparr>interruptEnabled := (interruptEnabled r)(arduinoPin := False),
                onChangeFunctions := (onChangeFunctions r)(arduinoPin := void_fn),
                filterFunctions := (filterFunctions r)(arduinoPin := none),
                transformFunctions := (transformFunctions r)(arduinoPin := identity)\<rparr>)
      else None)"

section \<open>The interrupt service routine\<close>

text \<open>
  The C expression \<open>2 << pin\<close> (lines 122 and 150). Its type is \<open>int\<close>; the value is
  computed here without a width, and the two places that use it bring it back to the
  sixteen bits of the flag register: the compound assignment of line 150 converts to
  \<open>uint16_t\<close>, and the test of line 122 meets it with a 16-bit operand. For a pin below
  \<open>PINS_COUNT\<close> the low sixteen bits are those of the shift on the processor, whether
  \<open>int\<close> has 32 bits or 16 (the AVR boards, where the bits shifted out are lost).
\<close>

definition flag_mask :: "nat \<Rightarrow> int" where
  "flag_mask pin = push_bit pin 2"

text \<open>\<open>flags | 2 << pin\<close> stored into a \<open>uint16_t\<close>, and the test \<open>flags & 2 << pin\<close>.\<close>

definition set_flag :: "16 word \<Rightarrow> nat \<Rightarrow> 16 word" where
  "set_flag flags pin = word_of_int (uint flags OR flag_mask pin)"

definition test_flag :: "16 word \<Rightarrow> nat \<Rightarrow> bool" where
  "test_flag flags pin \<longleftrightarrow> uint flags AND flag_mask pin \<noteq> 0"

text \<open>
  \<open>_handleChange\<close> (lines 140--152). \<open>arduinoInterruptedPin\<close> and \<open>arduinoPinState\<close>,
  injected by EnableInterrupt, and the value returned by \<open>micros()\<close> are parameters.
\<close>

definition handleChange ::
  "nat \<Rightarrow> 8 word \<Rightarrow> 'w::len word \<Rightarrow> ('w, 'u) receiver \<Rightarrow> ('w, 'u) receiver option" where
  "handleChange interruptedPin arduinoPinState micros r =
     (if \<not> interruptedPin < PINS_COUNT then None
      else if arduinoPinState > 0 then
        Some (r\<lparr>waveStarts := (waveStarts r)(interruptedPin := micros)\<rparr>)
      else
        Some (r\<lparr>currentValues :=
                  (currentValues r)(interruptedPin := micros - waveStarts r interruptedPin),
                changedFlags := set_flag (changedFlags r) interruptedPin\<rparr>))"

text \<open>
  A level change on a pin, as EnableInterrupt delivers it: the handler runs when the
  pin's interrupt is enabled, and nothing happens otherwise.
\<close>

definition pinChange ::
  "nat \<Rightarrow> 8 word \<Rightarrow> 'w::len word \<Rightarrow> ('w, 'u) receiver \<Rightarrow> ('w, 'u) receiver option" where
  "pinChange pin level micros r =
     (if interruptEnabled r pin then handleChange pin level micros r else Some r)"

section \<open>lookForChanges\<close>

text \<open>
  The body of the \<open>for\<close> loop (lines 122--131) for one pin, on the local copies
  \<open>flags\<close> and \<open>values\<close>: the filter is called first; when it returns true the
  transform is called and then the handler, with the transform's result.
\<close>

definition dispatch_pin ::
  "('w::len, 'u) receiver \<Rightarrow> 16 word \<Rightarrow> (nat \<Rightarrow> 'w word) \<Rightarrow> nat \<Rightarrow> 'u \<Rightarrow> 'u" where
  "dispatch_pin r flags vals pin u =
     (if test_flag flags pin then
        (let onChangeFunc = onChangeFunctions r pin;
             filterFunc = filterFunctions r pin;
             transformFunc = transformFunctions r pin;
             currentValue = vals pin;
             (accepted, u1) = filterFunc currentValue u
         in if accepted then
              (let (transformed, u2) = transformFunc currentValue u1
               in onChangeFunc transformed u2)
            else u1)
      else u)"

text \<open>The loop \<open>for (int pin = 0; pin < PINS_COUNT; pin++)\<close>, from a given \<open>pin\<close>.\<close>

function dispatch_loop ::
  "('w::len, 'u) receiver \<Rightarrow> 16 word \<Rightarrow> (nat \<Rightarrow> 'w word) \<Rightarrow> nat \<Rightarrow> 'u \<Rightarrow> 'u" where
  "dispatch_loop r flags vals pin u =
     (if pin < PINS_COUNT
      then dispatch_loop r flags vals (Suc pin) (dispatch_pin r flags vals pin u)
      else u)"
  by pat_completeness auto
termination
  by (relation "measure (\<lambda>(r, flags, vals, pin, u). PINS_COUNT - pin)") auto

declare dispatch_loop.simps [simp del]

text \<open>
  \<open>lookForChanges\<close> (lines 103--134), run without an interrupt in between: the test of
  the flags, the copies made with interrupts off, the reset of the flags, and the loop.
\<close>

definition lookForChanges :: "('w::len, 'u) receiver \<Rightarrow> 'u \<Rightarrow> ('w, 'u) receiver \<times> 'u" where
  "lookForChanges r u =
     (if changedFlags r \<noteq> 0 then
        (let flags = changedFlags r;
             vals = currentValues r;
             r' = r\<lparr>changedFlags := 0\<rparr>
         in (r', dispatch_loop r' flags vals 0 u))
      else (r, u))"

section \<open>A host program: API calls, level changes and polls in sequence\<close>

text \<open>
  What happens to a receiver from outside: the sketch calls \<open>attach\<close>, \<open>detach\<close> or
  \<open>lookForChanges\<close>, or a pin changes its level at a clock value. \<open>run\<close> performs
  a list of such events in order on the receiver and the application state, and is
  \<open>None\<close> as soon as one of them is undefined behaviour.
\<close>

datatype ('v, 'u) event =
    Attach2 nat "'v \<Rightarrow> 'u \<Rightarrow> 'u"
  | Attach3 nat "'v \<Rightarrow> 'u \<Rightarrow> 'u" "'v \<Rightarrow> 'u \<Rightarrow> bool \<times> 'u"
  | Attach4 nat "'v \<Rightarrow> 'u \<Rightarrow> 'u" "'v \<Rightarrow> 'u \<Rightarrow> bool \<times> 'u" "'v \<Rightarrow> 'u \<Rightarrow> 'v \<times> 'u"
  | Detach nat
  | Edge nat "8 word" 'v
  | Poll

fun apply_event ::
  "('w::len word, 'u) event \<Rightarrow> ('w, 'u) receiver \<times> 'u \<Rightarrow> (('w, 'u) receiver \<times> 'u) option" where
  "apply_event (Attach2 pin f) (r, u) = map_option (\<lambda>r'. (r', u)) (attach2 pin f r)"
| "apply_event (Attach3 pin f flt) (r, u) = map_option (\<lambda>r'. (r', u)) (attach3 pin f flt r)"
| "apply_event (Attach4 pin f flt tr) (r, u) =
     map_option (\<lambda>r'. (r', u)) (attach4 pin f flt tr r)"
| "apply_event (Detach pin) (r, u) = map_option (\<lambda>r'. (r', u)) (detach pin r)"
| "apply_event (Edge pin level micros) (r, u) =
     map_option (\<lambda>r'. (r', u)) (pinChange pin level micros r)"
| "apply_event Poll (r, u) = Some (lookForChanges r u)"

fun run ::
  "('w::len word, 'u) event list \<Rightarrow> ('w, 'u) receiver \<times> 'u \<Rightarrow> (('w, 'u) receiver \<times> 'u) option" where
  "run [] s = Some s"
| "run (e # es) s = (case apply_event e s of None \<Rightarrow> None | Some s' \<Rightarrow> run es s')"

text \<open>
  A receiver on which nothing is attached, for concrete runs: every pin holds what
  \<open>detach\<close> leaves, the arrays are zero and no flag is set.
\<close>

definition quiet_receiver :: "('w::len, 'u) receiver" where
  "quiet_receiver =
     \<lparr>onChangeFunctions = (\<lambda>pin. void_fn),
      filterFunctions = (\<lambda>pin. none),
      transformFunctions = (\<lambda>pin. identity),
      waveStarts = (\<lambda>pin. 0),
      currentValues = (\<lambda>pin. 0),
      changedFlags = 0,
      interruptEnabled = (\<lambda>pin. False)\<rparr>"

text \<open>A handler that appends the value it receives to a list: the \<open>store\<close> of the examples.\<close>

definition store :: "('w::len, 'w word list) OnChangeFunc" where
  "store v u = u @ [v]"

text \<open>
  User functions that record their own calls, to observe the order of the calls of one
  cycle: the application state is the list of calls made so far.
\<close>

datatype 'v call = FilterCall nat 'v | TransformCall nat 'v | OnChangeCall nat 'v

definition logged_filter ::
  "nat \<Rightarrow> ('w::len word \<Rightarrow> bool) \<Rightarrow> ('w, 'w word call list) FilterFunc" where
  "logged_filter pin p v u = (p v, u @ [FilterCall pin v])"

definition logged_transform ::
  "nat \<Rightarrow> ('w::len word \<Rightarrow> 'w word) \<Rightarrow> ('w, 'w word call list) TransformFunc" where
  "logged_transform pin f v u = (f v, u @ [TransformCall pin v])"

definition logged_onChange :: "nat \<Rightarrow> ('w::len, 'w word call list) OnChangeFunc" where
  "logged_onChange pin v u = u @ [OnChangeCall pin v]"

text \<open>
  Two receivers for concrete runs: one where every pin logs its calls, with a filter
  that accepts values above 1000 and a transform that subtracts 1000; and one with the
  \<open>store\<close> handler on every pin, interrupts enabled on pins 2 and 3, and a completed
  pulse pending on pin 2.
\<close>

definition logging_receiver :: "(32, 32 word call list) receiver" where
  "logging_receiver =
     \<lparr>onChangeFunctions = logged_onChange,
      filterFunctions = (\<lambda>pin. logged_filter pin (\<lambda>x. 1000 < x)),
      transformFunctions = (\<lambda>pin. logged_transform pin (\<lambda>x. x - 1000)),
      waveStarts = (\<lambda>pin. 0),
      currentValues = (\<lambda>pin. 0),
      changedFlags = 0,
      interruptEnabled = (\<lambda>pin. pin = 2 \<or> pin = 5 \<or> pin = 7)\<rparr>"

definition pending_receiver :: "(32, 32 word list) receiver" where
  "pending_receiver =
     quiet_receiver\<lparr>onChangeFunctions := (\<lambda>pin. store), filterFunctions := (\<lambda>pin. any),
       interruptEnabled := (\<lambda>pin. pin = 2 \<or> pin = 3), changedFlags := set_flag 0 2\<rparr>"

text \<open>
  A receiver with \<open>store\<close> attached and interrupts enabled on pins 3 and 5, and a
  completed pulse pending on both: the value slot of pin 5 holds 1200.
\<close>

definition busy_receiver :: "(32, 32 word list) receiver" where
  "busy_receiver =
     quiet_receiver\<lparr>onChangeFunctions := (\<lambda>pin. store), filterFunctions := (\<lambda>pin. any),
       interruptEnabled := (\<lambda>pin. pin = 3 \<or> pin = 5),
       currentValues := (\<lambda>pin. if pin = 5 then 1200 else 2000),
       changedFlags := set_flag (set_flag 0 3) 5\<rparr>"

section \<open>The dispatcher as the specification words it\<close>

text \<open>
  The specification's Dispatcher (section 4.4), written from its words for comparison
  with \<open>lookForChanges\<close>: for each channel whose bit is set in the mask, in increasing
  channel-index order, evaluate the filter; if it returns false skip to the next
  channel; otherwise compute the transform and invoke the callback with the result.
\<close>

definition spec_pipeline ::
  "('w::len, 'u) FilterFunc \<Rightarrow> ('w, 'u) TransformFunc \<Rightarrow> ('w, 'u) OnChangeFunc
     \<Rightarrow> 'w word \<Rightarrow> 'u \<Rightarrow> 'u" where
  "spec_pipeline flt tr cb v u =
     (case flt v u of
        (False, u1) \<Rightarrow> u1
      | (True, u1) \<Rightarrow> (case tr v u1 of (t, u2) \<Rightarrow> cb t u2))"

definition dirty_channels :: "16 word \<Rightarrow> nat list" where
  "dirty_channels flags = filter (test_flag flags) [0..<PINS_COUNT]"

definition channel_pipeline :: "('w::len, 'u) receiver \<Rightarrow> nat \<Rightarrow> 'u \<Rightarrow> 'u" where
  "channel_pipeline r c =
     spec_pipeline (filterFunctions r c) (transformFunctions r c) (onChangeFunctions r c)
       (currentValues r c)"

definition spec_dispatch :: "('w::len, 'u) receiver \<Rightarrow> 'u \<Rightarrow> 'u" where
  "spec_dispatch r u = fold (channel_pipeline r) (dirty_channels (changedFlags r)) u"

section \<open>lookForChanges step by step, with interrupts in between\<close>

text \<open>
  The places of control of \<open>lookForChanges\<close>, named by the source line about to run:
  the test of line 105, \<open>noInterrupts()\<close>, the copy of the flags, \<open>memcpy\<close> about to
  copy cell \<open>i\<close>, the reset of the flags, \<open>interrupts()\<close>, the loop about to visit
  \<open>pin\<close>, and the return.
\<close>

datatype place =
    L105_test
  | L107_noInterrupts
  | L110_copy_flags
  | L112_memcpy nat
  | L115_reset
  | L118_interrupts
  | L121_loop nat
  | Returned

text \<open>
  A configuration: the receiver (with the variables shared with the interrupt routine),
  the processor's interrupt-enable flag, the place of control of the main program, the
  locals \<open>flags\<close> and \<open>values\<close> of \<open>lookForChanges\<close>, and the application state.
\<close>

record (overloaded) ('w, 'u) config =
  cfg_receiver :: "('w, 'u) receiver"
  cfg_irq :: bool
  cfg_place :: place
  local_flags :: "16 word"
  local_values :: "nat \<Rightarrow> 'w word"
  cfg_world :: 'u

text \<open>One step of the main program. \<open>memcpy\<close> copies one cell per step.\<close>

definition main_step :: "('w::len, 'u) config \<Rightarrow> ('w, 'u) config" where
  "main_step c =
     (case cfg_place c of
        L105_test \<Rightarrow>
          (if changedFlags (cfg_receiver c) \<noteq> 0 then c\<lparr>cfg_place := L107_noInterrupts\<rparr>
           else c\<lparr>cfg_place := Returned\<rparr>)
      | L107_noInterrupts \<Rightarrow> c\<lparr>cfg_irq := False, cfg_place := L110_copy_flags\<rparr>
      | L110_copy_flags \<Rightarrow>
          c\<lparr>local_flags := changedFlags (cfg_receiver c), cfg_place := L112_memcpy 0\<rparr>
      | L112_memcpy i \<Rightarrow>
          (if i < PINS_COUNT then
             c\<lparr>local_values := (local_values c)(i := currentValues (cfg_receiver c) i),
               cfg_place := L112_memcpy (Suc i)\<rparr>
           else c\<lparr>cfg_place := L115_reset\<rparr>)
      | L115_reset \<Rightarrow>
          c\<lparr>cfg_receiver := (cfg_receiver c)\<lparr>changedFlags := 0\<rparr>,
            cfg_place := L118_interrupts\<rparr>
      | L118_interrupts \<Rightarrow> c\<lparr>cfg_irq := True, cfg_place := L121_loop 0\<rparr>
      | L121_loop pin \<Rightarrow>
          (if pin < PINS_COUNT then
             c\<lparr>cfg_world :=
                 dispatch_pin (cfg_receiver c) (local_flags c) (local_values c) pin (cfg_world c),
               cfg_place := L121_loop (Suc pin)\<rparr>
           else c\<lparr>cfg_place := Returned\<rparr>)
      | Returned \<Rightarrow> c)"

text \<open>
  A schedule interleaves steps of the main program with level changes of pins. The
  interrupt routine runs to its end before the main program goes on, and only while
  interrupts are enabled: a schedule that places a level change where they are off does
  not happen on the processor (the routine runs after \<open>interrupts()\<close>, which is
  another schedule), and has no run (\<open>None\<close>, as for undefined behaviour). The test
  of line 105 is one step: the routine only sets bits, so a read of the two bytes with
  the routine in between sees zero only if the register was zero when the read began.
\<close>

datatype 'v action = MainStep | Interrupt nat "8 word" 'v

fun step :: "'w::len word action \<Rightarrow> ('w, 'u) config \<Rightarrow> ('w, 'u) config option" where
  "step MainStep c = Some (main_step c)"
| "step (Interrupt pin level micros) c =
     (if cfg_irq c
      then map_option (\<lambda>r. c\<lparr>cfg_receiver := r\<rparr>) (pinChange pin level micros (cfg_receiver c))
      else None)"

fun exec :: "'w::len word action list \<Rightarrow> ('w, 'u) config \<Rightarrow> ('w, 'u) config option" where
  "exec [] c = Some c"
| "exec (a # as) c = (case step a c of None \<Rightarrow> None | Some c' \<Rightarrow> exec as c')"

text \<open>
  The call of \<open>lookForChanges\<close> about to start, with whatever the locals hold, and
  the places of the call where the copies and the reset are done.
\<close>

definition call_lookForChanges ::
  "('w::len, 'u) receiver \<Rightarrow> 'u \<Rightarrow> 16 word \<Rightarrow> (nat \<Rightarrow> 'w word) \<Rightarrow> ('w, 'u) config" where
  "call_lookForChanges r u junk_flags junk_values =
     \<lparr>cfg_receiver = r, cfg_irq = True, cfg_place = L105_test,
      local_flags = junk_flags, local_values = junk_values, cfg_world = u\<rparr>"

fun snapshot_taken :: "place \<Rightarrow> bool" where
  "snapshot_taken L118_interrupts = True"
| "snapshot_taken (L121_loop pin) = True"
| "snapshot_taken p = False"

text \<open>
  The places inside the critical section, with the number of steps of the main program
  from each of them to \<open>interrupts()\<close>, and the places from which the locals no
  longer change.
\<close>

fun steps_to_interrupts :: "place \<Rightarrow> nat" where
  "steps_to_interrupts L110_copy_flags = PINS_COUNT + 3"
| "steps_to_interrupts (L112_memcpy i) = PINS_COUNT + 2 - i"
| "steps_to_interrupts L115_reset = 1"
| "steps_to_interrupts p = 0"

fun in_critical_section :: "place \<Rightarrow> bool" where
  "in_critical_section L110_copy_flags = True"
| "in_critical_section (L112_memcpy i) = (i \<le> PINS_COUNT)"
| "in_critical_section L115_reset = True"
| "in_critical_section p = False"

fun after_copies :: "place \<Rightarrow> bool" where
  "after_copies L118_interrupts = True"
| "after_copies (L121_loop pin) = True"
| "after_copies Returned = True"
| "after_copies p = False"

section \<open>Receivers that differ in one channel only\<close>

text \<open>
  Two receivers that agree on everything but channel \<open>a\<close>'s wave start, value slot and
  flag bit; and two receivers that agree on everything but the three functions installed
  for channel \<open>c\<close>.
\<close>

definition same_except :: "nat \<Rightarrow> ('w::len, 'u) receiver \<Rightarrow> ('w, 'u) receiver \<Rightarrow> bool" where
  "same_except a r1 r2 \<longleftrightarrow>
     onChangeFunctions r1 = onChangeFunctions r2 \<and>
     filterFunctions r1 = filterFunctions r2 \<and>
     transformFunctions r1 = transformFunctions r2 \<and>
     interruptEnabled r1 = interruptEnabled r2 \<and>
     (\<forall>p. p \<noteq> a \<longrightarrow>
        waveStarts r1 p = waveStarts r2 p \<and> currentValues r1 p = currentValues r2 p) \<and>
     (\<forall>n. n \<noteq> Suc a \<longrightarrow> bit (changedFlags r1) n = bit (changedFlags r2) n)"

definition same_but_triplet ::
  "nat \<Rightarrow> ('w::len, 'u) receiver \<Rightarrow> ('w, 'u) receiver \<Rightarrow> bool" where
  "same_but_triplet c r1 r2 \<longleftrightarrow>
     waveStarts r1 = waveStarts r2 \<and> currentValues r1 = currentValues r2 \<and>
     changedFlags r1 = changedFlags r2 \<and> interruptEnabled r1 = interruptEnabled r2 \<and>
     (\<forall>p. p \<noteq> c \<longrightarrow> onChangeFunctions r1 p = onChangeFunctions r2 p \<and>
        filterFunctions r1 p = filterFunctions r2 p \<and>
        transformFunctions r1 p = transformFunctions r2 p)"

section \<open>The flag register\<close>

lemma flag_mask_eq: "flag_mask pin = 2 ^ Suc pin"
  by (simp add: flag_mask_def push_bit_eq_mult)

lemma test_flag_iff: "test_flag flags pin \<longleftrightarrow> bit flags (Suc pin)"
proof -
  have "uint flags AND 2 ^ Suc pin \<noteq> 0 \<longleftrightarrow> bit (uint flags) (Suc pin)"
    by (metis and_exp_eq_0_iff_not_bit)
  then show ?thesis
    by (auto simp add: test_flag_def flag_mask_eq bit_uint_iff simp del: power_Suc
          dest: bit_imp_le_length)
qed

lemma bit_set_flag:
  "bit (set_flag flags pin) n \<longleftrightarrow> bit flags n \<or> (n = Suc pin \<and> n < 16)"
  by (auto simp add: set_flag_def flag_mask_eq bit_word_of_int_iff bit_or_iff bit_uint_iff
        bit_exp_iff simp del: power_Suc dest: bit_imp_le_length)

lemma test_flag_set_flag:
  "test_flag (set_flag flags a) b \<longleftrightarrow> test_flag flags b \<or> (a = b \<and> b < 15)"
  by (auto simp add: test_flag_iff bit_set_flag)

lemma set_flag_15: "set_flag flags 15 = flags"
  by (rule bit_word_eqI) (simp add: bit_set_flag)

lemma test_flag_15: "\<not> test_flag flags 15"
  by (auto simp add: test_flag_iff dest: bit_imp_le_length)

lemma test_flag_0: "\<not> test_flag 0 pin"
  by (simp add: test_flag_iff)

lemma set_flag_nonzero: "pin < 15 \<Longrightarrow> set_flag flags pin \<noteq> 0"
proof
  assume "pin < 15" "set_flag flags pin = 0"
  then have "\<not> bit (set_flag flags pin) (Suc pin)" by simp
  with \<open>pin < 15\<close> show False by (simp add: bit_set_flag)
qed

section \<open>The interrupt routine on one edge\<close>

lemma handleChange_rising:
  "pin < PINS_COUNT \<Longrightarrow> 0 < level \<Longrightarrow>
   handleChange pin level t r = Some (r\<lparr>waveStarts := (waveStarts r)(pin := t)\<rparr>)"
  by (simp add: handleChange_def)

lemma handleChange_falling:
  "pin < PINS_COUNT \<Longrightarrow>
   handleChange pin 0 t r =
     Some (r\<lparr>currentValues := (currentValues r)(pin := t - waveStarts r pin),
             changedFlags := set_flag (changedFlags r) pin\<rparr>)"
  by (simp add: handleChange_def)

text \<open>
  C10. Edge capture cannot fail, and the stored duration is the wrapped difference: for
  every channel below \<open>PINS_COUNT\<close>, every rising-edge time \<open>t_s\<close> and every
  falling-edge time \<open>t_f\<close> (also \<open>t_f < t_s\<close>), both calls of the routine return, and
  the value slot then holds \<open>t_f - t_s\<close> modulo \<open>2 ^ w\<close>, \<open>w\<close> the width of the
  clock type.
\<close>

theorem edge_capture_wraps:
  fixes t_s t_f :: "'w::len word" and r :: "('w, 'u) receiver"
  assumes "c < PINS_COUNT" and "0 < level"
  shows "\<exists>r1 r2. handleChange c level t_s r = Some r1 \<and> handleChange c 0 t_f r1 = Some r2 \<and>
           currentValues r2 c = t_f - t_s \<and>
           uint (currentValues r2 c) = (uint t_f - uint t_s) mod 2 ^ LENGTH('w)"
  using assms by (simp add: handleChange_rising handleChange_falling uint_word_ariths)

theorem edge_capture_wraps_witness:
  "(3::nat) < PINS_COUNT \<and> (0 :: 8 word) < 1 \<and>
   (\<exists>r1 r2. handleChange 3 1 (4294967000 :: 32 word) (quiet_receiver :: (32, unit) receiver)
        = Some r1 \<and>
      handleChange 3 0 100 r1 = Some r2 \<and>
      currentValues r2 3 = 100 - 4294967000 \<and>
      uint (currentValues r2 3) =
        (uint (100 :: 32 word) - uint (4294967000 :: 32 word)) mod 2 ^ LENGTH(32))"
proof -
  have h: "(3::nat) < PINS_COUNT" "(0 :: 8 word) < 1"
    by (simp_all add: PINS_COUNT_def)
  show ?thesis
    by (intro conjI h edge_capture_wraps [OF h])
qed

section \<open>attach\<close>

text \<open>
  C8. For a channel below \<open>PINS_COUNT\<close>: \<open>attach(channel, onChange)\<close> installs the
  handler with the accept-all filter and the identity transform;
  \<open>attach(channel, onChange, filter)\<close> installs the identity transform; every overload
  returns, enables the pin's interrupt, and overwrites the channel's earlier
  configuration completely: attaching after any earlier \<open>attach\<close> or \<open>detach\<close> of
  the channel gives the receiver that attaching directly gives.
\<close>

theorem attach_overwrites:
  fixes r :: "('w::len, 'u) receiver"
  assumes "pin < PINS_COUNT"
  shows "\<exists>r2 r3 r4.
     attach2 pin f r = Some r2 \<and> onChangeFunctions r2 pin = f \<and>
       filterFunctions r2 pin = any \<and> transformFunctions r2 pin = identity \<and>
     attach3 pin f flt r = Some r3 \<and> onChangeFunctions r3 pin = f \<and>
       filterFunctions r3 pin = flt \<and> transformFunctions r3 pin = identity \<and>
     attach4 pin f flt tr r = Some r4 \<and> onChangeFunctions r4 pin = f \<and>
       filterFunctions r4 pin = flt \<and> transformFunctions r4 pin = tr \<and>
     interruptEnabled r2 pin \<and> interruptEnabled r3 pin \<and> interruptEnabled r4 pin \<and>
     Option.bind (attach4 pin f' flt' tr' r) (attach2 pin f) = Some r2 \<and>
     Option.bind (attach4 pin f' flt' tr' r) (attach3 pin f flt) = Some r3 \<and>
     Option.bind (attach4 pin f' flt' tr' r) (attach4 pin f flt tr) = Some r4 \<and>
     Option.bind (detach pin r) (attach2 pin f) = Some r2 \<and>
     Option.bind (detach pin r) (attach3 pin f flt) = Some r3 \<and>
     Option.bind (detach pin r) (attach4 pin f flt tr) = Some r4"
  using assms by (simp add: attach2_def attach3_def attach4_def detach_def)

theorem attach_overwrites_witness:
  "(3::nat) < PINS_COUNT \<and>
   (\<exists>(r2 :: (32, 32 word list) receiver) (r3 :: (32, 32 word list) receiver)
      (r4 :: (32, 32 word list) receiver).
     attach2 3 store quiet_receiver = Some r2 \<and>
       onChangeFunctions r2 3 = store \<and>
       filterFunctions r2 3 = any \<and> transformFunctions r2 3 = identity \<and>
     attach3 3 store none quiet_receiver = Some r3 \<and> onChangeFunctions r3 3 = store \<and>
       filterFunctions r3 3 = none \<and> transformFunctions r3 3 = identity \<and>
     attach4 3 store none identity quiet_receiver = Some r4 \<and> onChangeFunctions r4 3 = store \<and>
       filterFunctions r4 3 = none \<and> transformFunctions r4 3 = identity \<and>
     interruptEnabled r2 3 \<and> interruptEnabled r3 3 \<and> interruptEnabled r4 3 \<and>
     Option.bind (attach4 3 void_fn any identity quiet_receiver) (attach2 3 store) = Some r2 \<and>
     Option.bind (attach4 3 void_fn any identity quiet_receiver) (attach3 3 store none) = Some r3 \<and>
     Option.bind (attach4 3 void_fn any identity quiet_receiver) (attach4 3 store none identity)
       = Some r4 \<and>
     Option.bind (detach 3 quiet_receiver) (attach2 3 store) = Some r2 \<and>
     Option.bind (detach 3 quiet_receiver) (attach3 3 store none) = Some r3 \<and>
     Option.bind (detach 3 quiet_receiver) (attach4 3 store none identity) = Some r4)"
proof -
  have h: "(3::nat) < PINS_COUNT"
    by (simp add: PINS_COUNT_def)
  show ?thesis
    by (intro conjI h attach_overwrites [OF h, where f = store and flt = none
          and tr = identity and f' = void_fn and flt' = any and tr' = identity
          and r = "quiet_receiver :: (32, 32 word list) receiver"])
qed

section \<open>The dispatch loop\<close>

lemma dispatch_loop_fold:
  "dispatch_loop r flags vals pin u = fold (dispatch_pin r flags vals) [pin..<PINS_COUNT] u"
proof (induction r flags vals pin u rule: dispatch_loop.induct)
  case (1 r flags vals pin u)
  show ?case
  proof (cases "pin < PINS_COUNT")
    case True
    with 1 show ?thesis
      by (subst dispatch_loop.simps) (simp add: upt_conv_Cons)
  next
    case False
    then show ?thesis
      by (subst dispatch_loop.simps) simp
  qed
qed

lemma dispatch_pin_pipeline:
  "dispatch_pin r flags vals pin u =
     (if test_flag flags pin
      then spec_pipeline (filterFunctions r pin) (transformFunctions r pin)
             (onChangeFunctions r pin) (vals pin) u
      else u)"
  by (simp add: dispatch_pin_def spec_pipeline_def split: prod.splits bool.splits)

lemma fold_dispatch_pin_filter:
  "fold (dispatch_pin r flags vals) ps u =
   fold (\<lambda>pin. spec_pipeline (filterFunctions r pin) (transformFunctions r pin)
                  (onChangeFunctions r pin) (vals pin))
     (filter (test_flag flags) ps) u"
  by (induction ps arbitrary: u) (simp_all add: dispatch_pin_pipeline)

lemma dispatch_loop_dirty:
  "dispatch_loop r flags vals 0 u =
   fold (\<lambda>pin. spec_pipeline (filterFunctions r pin) (transformFunctions r pin)
                  (onChangeFunctions r pin) (vals pin))
     (dirty_channels flags) u"
  by (simp add: dispatch_loop_fold fold_dispatch_pin_filter dirty_channels_def)

lemma dirty_channels_0: "dirty_channels 0 = []"
  by (simp add: dirty_channels_def test_flag_0)

lemma filter_upt_single:
  assumes "c < n" and "P c" and "\<And>p. p < n \<Longrightarrow> p \<noteq> c \<Longrightarrow> \<not> P p"
  shows "filter P [0..<n] = [c]"
proof -
  have "[0..<n] = [0..<c] @ c # [Suc c..<n]"
    using assms(1)
    by (metis less_imp_le_nat upt_add_eq_append upt_conv_Cons zero_le le_add_diff_inverse)
  moreover have "filter P [0..<c] = []"
    using assms by (auto simp add: filter_empty_conv)
  moreover have "filter P [Suc c..<n] = []"
    using assms by (auto simp add: filter_empty_conv)
  ultimately show ?thesis
    using assms(2) by simp
qed

lemma run_append:
  "run (xs @ ys) s = (case run xs s of None \<Rightarrow> None | Some s' \<Rightarrow> run ys s')"
  by (induction xs arbitrary: s) (simp_all split: option.splits)

lemma upt_PINS_COUNT:
  "[0..<PINS_COUNT] = [0, 1, 2, 3, 4, 5, 6, 7, 8, 9, 10, 11, 12, 13, 14, 15]"
  unfolding PINS_COUNT_def by code_simp

lemma set_dirty_channels:
  "set (dirty_channels flags) = {c. c < PINS_COUNT \<and> test_flag flags c}"
  by (auto simp add: dirty_channels_def)

lemma lookForChanges_world:
  "snd (lookForChanges r u) = spec_dispatch r u"
  by (simp add: lookForChanges_def spec_dispatch_def channel_pipeline_def [abs_def] Let_def
        dispatch_loop_dirty dirty_channels_0)

text \<open>
  C9. One cycle of \<open>lookForChanges\<close> does to the application state what the
  specification's dispatcher does: it runs the pipelines of the dirty channels, each
  channel once, in ascending channel order (the list of dirty channels is strictly
  increasing, so no channel occurs twice, whatever number of pulses completed on it),
  and in each pipeline the filter is called first, then, only when it returned true,
  the transform and after it the handler with the transform's result.
\<close>

theorem dispatch_order:
  "snd (lookForChanges r u) = spec_dispatch r u \<and>
   sorted_wrt (<) (dirty_channels (changedFlags r)) \<and>
   distinct (dirty_channels (changedFlags r)) \<and>
   set (dirty_channels (changedFlags r)) = {c. c < PINS_COUNT \<and> test_flag (changedFlags r) c} \<and>
   dispatch_pin r flags vals pin u =
     (if test_flag flags pin
      then spec_pipeline (filterFunctions r pin) (transformFunctions r pin)
             (onChangeFunctions r pin) (vals pin) u
      else u)"
proof -
  have "snd (lookForChanges r u) = spec_dispatch r u"
    by (simp add: lookForChanges_def spec_dispatch_def channel_pipeline_def [abs_def] Let_def
          dispatch_loop_dirty dirty_channels_0)
  moreover have "sorted_wrt (<) (dirty_channels (changedFlags r))"
    unfolding dirty_channels_def by (rule sorted_wrt_filter) simp
  moreover have "distinct (dirty_channels (changedFlags r))"
    by (simp add: dirty_channels_def)
  moreover have "set (dirty_channels (changedFlags r)) =
      {c. c < PINS_COUNT \<and> test_flag (changedFlags r) c}"
    by (auto simp add: dirty_channels_def)
  ultimately show ?thesis
    by (simp add: dispatch_pin_pipeline)
qed

theorem dispatch_order_witness:
  "map_option snd
     (run [Edge 5 1 0, Edge 5 0 1100, Edge 7 1 2000, Edge 7 0 2900, Edge 2 1 3000, Edge 2 0 4500,
           Edge 5 1 5000, Edge 5 0 6200, Poll] (logging_receiver, [])) =
   Some [FilterCall 2 1500, TransformCall 2 1500, OnChangeCall 2 500,
         FilterCall 5 1200, TransformCall 5 1200, OnChangeCall 5 200,
         FilterCall 7 900]"
proof -
  define r where "r = logging_receiver
     \<lparr>waveStarts := (\<lambda>pin. if pin = 5 then 5000 else if pin = 2 then 3000
                       else if pin = 7 then 2000 else 0),
      currentValues := (\<lambda>pin. if pin = 5 then 1200 else if pin = 2 then 1500
                       else if pin = 7 then 900 else 0),
      changedFlags := set_flag (set_flag (set_flag (set_flag 0 5) 7) 2) 5\<rparr>"
  have e: "run [Edge 5 1 0, Edge 5 0 1100, Edge 7 1 2000, Edge 7 0 2900, Edge 2 1 3000,
      Edge 2 0 4500, Edge 5 1 5000, Edge 5 0 6200] (logging_receiver, []) = Some (r, [])"
    by (simp add: pinChange_def handleChange_def PINS_COUNT_def logging_receiver_def r_def
          fun_eq_iff)
  have d: "dirty_channels (changedFlags r) = [2, 5, 7]"
    by (simp add: r_def dirty_channels_def upt_PINS_COUNT test_flag_set_flag test_flag_0)
  have "snd (lookForChanges r []) = spec_dispatch r []"
    using dispatch_order [of r "[]"] by simp
  also have "\<dots> = [FilterCall 2 1500, TransformCall 2 1500, OnChangeCall 2 500,
         FilterCall 5 1200, TransformCall 5 1200, OnChangeCall 5 200,
         FilterCall 7 900]"
    by (simp add: spec_dispatch_def d channel_pipeline_def spec_pipeline_def)
      (simp add: r_def logging_receiver_def logged_filter_def logged_transform_def
        logged_onChange_def)
  finally have "snd (lookForChanges r []) = [FilterCall 2 1500, TransformCall 2 1500,
      OnChangeCall 2 500, FilterCall 5 1200, TransformCall 5 1200, OnChangeCall 5 200,
      FilterCall 7 900]" .
  moreover have "run ([Edge 5 1 0, Edge 5 0 1100, Edge 7 1 2000, Edge 7 0 2900, Edge 2 1 3000,
      Edge 2 0 4500, Edge 5 1 5000, Edge 5 0 6200] @ [Poll]) (logging_receiver, []) =
      Some (lookForChanges r [])"
    by (simp only: run_append e option.case) simp
  ultimately show ?thesis
    by simp
qed

section \<open>One pulse, then a poll\<close>

lemma dirty_channels_single:
  "c < 15 \<Longrightarrow> dirty_channels (set_flag 0 c) = [c]"
  unfolding dirty_channels_def
  by (rule filter_upt_single) (simp_all add: test_flag_set_flag test_flag_0 PINS_COUNT_def)

lemma lookForChanges_single:
  assumes "c < 15" and "changedFlags r = set_flag 0 c"
  shows "lookForChanges r u = (r\<lparr>changedFlags := 0\<rparr>, channel_pipeline r c u)"
  using assms
  by (simp add: lookForChanges_def Let_def set_flag_nonzero dispatch_loop_dirty
        dirty_channels_single channel_pipeline_def)

lemma lookForChanges_clean:
  "changedFlags r = 0 \<Longrightarrow> lookForChanges r u = (r, u)"
  by (simp add: lookForChanges_def)

lemma pulse_then_poll:
  fixes r :: "('w::len, 'u) receiver"
  assumes "c < 15" and "interruptEnabled r c" and "changedFlags r = 0" and "0 < level"
  shows "run [Edge c level t_s, Edge c 0 t_f, Poll] (r, u) =
    Some (r\<lparr>waveStarts := (waveStarts r)(c := t_s),
             currentValues := (currentValues r)(c := t_f - t_s),
             changedFlags := 0\<rparr>,
          spec_pipeline (filterFunctions r c) (transformFunctions r c) (onChangeFunctions r c)
            (t_f - t_s) u)"
proof -
  have c: "c < PINS_COUNT" using assms(1) by (simp add: PINS_COUNT_def)
  show ?thesis
    using assms
    by (simp add: pinChange_def handleChange_rising [OF c] handleChange_falling [OF c]
          lookForChanges_single [where c = c] channel_pipeline_def)
qed

text \<open>
  C3. On a receiver with no flag set, after
  \<open>attach(3, onChange, filter = (x > 1000), transform = identity)\<close>: a pulse of
  duration 500 on channel 3 followed by \<open>lookForChanges\<close> leaves the application
  state as it was (no handler is called), and a following pulse of duration 2000 on
  channel 3 followed by \<open>lookForChanges\<close> changes it by one call of the handler with
  the value 2000. \<open>unsigned long\<close> has 32 bits here.
\<close>

theorem end_to_end_channel_3:
  fixes r :: "(32, 'u) receiver"
  assumes "changedFlags r = 0"
  shows "\<exists>r0 r1 r2.
           run [Attach4 3 onChange (\<lambda>x u. (1000 < x, u)) identity] (r, u) = Some (r0, u) \<and>
           run [Edge 3 1 t0, Edge 3 0 (t0 + 500), Poll] (r0, u) = Some (r1, u) \<and>
           run [Edge 3 1 t1, Edge 3 0 (t1 + 2000), Poll] (r1, u) = Some (r2, onChange 2000 u)"
proof -
  define r0 where "r0 = r\<lparr>interruptEnabled := (interruptEnabled r)(3 := True),
                onChangeFunctions := (onChangeFunctions r)(3 := onChange),
                filterFunctions := (filterFunctions r)(3 := (\<lambda>x u. (1000 < x, u))),
                transformFunctions := (transformFunctions r)(3 := identity)\<rparr>"
  define r1 where "r1 = r0\<lparr>waveStarts := (waveStarts r0)(3 := t0),
             currentValues := (currentValues r0)(3 := 500),
             changedFlags := 0\<rparr>"
  have a: "run [Attach4 3 onChange (\<lambda>x u. (1000 < x, u)) identity] (r, u) = Some (r0, u)"
    by (simp add: attach4_def PINS_COUNT_def r0_def)
  have r0: "interruptEnabled r0 3" "changedFlags r0 = 0"
    using assms by (simp_all add: r0_def)
  have b: "run [Edge 3 1 t0, Edge 3 0 (t0 + 500), Poll] (r0, u) = Some (r1, u)"
    using r0 by (subst pulse_then_poll) (simp_all add: r1_def spec_pipeline_def r0_def)
  have r1: "interruptEnabled r1 3" "changedFlags r1 = 0"
    using r0 by (simp_all add: r1_def)
  have c: "\<exists>r2. run [Edge 3 1 t1, Edge 3 0 (t1 + 2000), Poll] (r1, u) = Some (r2, onChange 2000 u)"
    using r1 by (subst pulse_then_poll) (simp_all add: r1_def spec_pipeline_def r0_def identity_def)
  from a b c show ?thesis by blast
qed

theorem end_to_end_channel_3_witness:
  "changedFlags (quiet_receiver :: (32, 32 word list) receiver) = 0 \<and>
   (\<exists>(r0 :: (32, 32 word list) receiver) r1 r2.
      run [Attach4 3 store (\<lambda>x u. (1000 < x, u)) identity] (quiet_receiver, []) = Some (r0, []) \<and>
      run [Edge 3 1 0, Edge 3 0 (0 + 500), Poll] (r0, []) = Some (r1, []) \<and>
      run [Edge 3 1 1000, Edge 3 0 (1000 + 2000), Poll] (r1, []) = Some (r2, store 2000 []))"
proof -
  have h: "changedFlags (quiet_receiver :: (32, 32 word list) receiver) = 0"
    by (simp add: quiet_receiver_def)
  show ?thesis
    by (intro conjI h end_to_end_channel_3 [OF h])
qed

section \<open>detach\<close>

lemma fold_pipeline_skip_none:
  assumes "filterFunctions r c = none"
  shows "fold (channel_pipeline r) ds u = fold (channel_pipeline r) (filter (\<lambda>p. p \<noteq> c) ds) u"
proof (induction ds arbitrary: u)
  case Nil
  show ?case by simp
next
  case (Cons d ds)
  show ?case
  proof (cases "d = c")
    case True
    then have "channel_pipeline r d u = u"
      by (simp add: channel_pipeline_def spec_pipeline_def assms none_def)
    with True Cons.IH show ?thesis by simp
  next
    case False
    with Cons.IH show ?thesis by simp
  qed
qed

lemma fold_pipeline_others:
  assumes "\<And>p. p \<noteq> c \<Longrightarrow> channel_pipeline r1 p = channel_pipeline r p"
  shows "fold (channel_pipeline r1) (filter (\<lambda>p. p \<noteq> c) ds) u =
         fold (channel_pipeline r) (filter (\<lambda>p. p \<noteq> c) ds) u"
  by (rule fold_cong) (simp_all add: assms)

lemma dirty_channels_others_set_flag:
  "filter (\<lambda>p. p \<noteq> c) (dirty_channels (set_flag flags c)) =
   filter (\<lambda>p. p \<noteq> c) (dirty_channels flags)"
  unfolding dirty_channels_def filter_filter
  by (rule filter_cong) (auto simp add: test_flag_set_flag)

lemma lookForChanges_skip_none:
  assumes "filterFunctions r1 c = none"
    and "\<And>p. p \<noteq> c \<Longrightarrow> channel_pipeline r1 p = channel_pipeline r p"
  shows "snd (lookForChanges r1 u) =
         fold (channel_pipeline r) (filter (\<lambda>p. p \<noteq> c) (dirty_channels (changedFlags r1))) u"
proof -
  have "snd (lookForChanges r1 u) = fold (channel_pipeline r1) (dirty_channels (changedFlags r1)) u"
    by (simp add: lookForChanges_world spec_dispatch_def)
  also have "\<dots> = fold (channel_pipeline r1)
      (filter (\<lambda>p. p \<noteq> c) (dirty_channels (changedFlags r1))) u"
    by (rule fold_pipeline_skip_none) (rule assms(1))
  also have "\<dots> = fold (channel_pipeline r)
      (filter (\<lambda>p. p \<noteq> c) (dirty_channels (changedFlags r1))) u"
    by (rule fold_pipeline_others) (rule assms(2))
  finally show ?thesis .
qed

text \<open>
  C7. For a channel \<open>c\<close> below \<open>PINS_COUNT\<close>, on any receiver, \<open>detach(c)\<close>
  returns, disables the pin's interrupt and installs the reject-all filter, the identity
  transform and the empty handler. A level change on \<open>c\<close> is then no longer delivered:
  it leaves the receiver as it is. A further rising and falling edge on \<open>c\<close> followed
  by \<open>lookForChanges\<close> does to the application state what the pipelines of the other
  dirty channels do, in their order, and nothing else: whatever was attached to \<open>c\<close>
  before is not called, whether or not \<open>c\<close> had a dirty bit. The same holds when a
  falling edge already on its way is still handled after \<open>detach\<close> and leaves a stale
  dirty bit.
\<close>

theorem detach_silences_channel:
  fixes r :: "('w::len, 'u) receiver"
  assumes "c < PINS_COUNT"
  shows "\<exists>r1 r2 r3 r4.
           detach c r = Some r1 \<and> \<not> interruptEnabled r1 c \<and>
           filterFunctions r1 c = none \<and> transformFunctions r1 c = identity \<and>
           onChangeFunctions r1 c = void_fn \<and>
           pinChange c level t r1 = Some r1 \<and>
           run [Edge c level t_s, Edge c 0 t_f, Poll] (r1, u) =
             Some (r2, fold (channel_pipeline r)
                         (filter (\<lambda>p. p \<noteq> c) (dirty_channels (changedFlags r))) u) \<and>
           handleChange c 0 t_f r1 = Some r3 \<and>
           lookForChanges r3 u =
             (r4, fold (channel_pipeline r)
                    (filter (\<lambda>p. p \<noteq> c) (dirty_channels (changedFlags r))) u)"
proof -
  define r1 where "r1 = r\<lparr>interruptEnabled := (interruptEnabled r)(c := False),
                onChangeFunctions := (onChangeFunctions r)(c := void_fn),
                filterFunctions := (filterFunctions r)(c := none),
                transformFunctions := (transformFunctions r)(c := identity)\<rparr>"
  define r3 where "r3 = r1\<lparr>currentValues := (currentValues r1)(c := t_f - waveStarts r1 c),
             changedFlags := set_flag (changedFlags r1) c\<rparr>"
  have d: "detach c r = Some r1"
    using assms(1) by (simp add: detach_def r1_def)
  have p: "\<not> interruptEnabled r1 c" "filterFunctions r1 c = none"
    "transformFunctions r1 c = identity" "onChangeFunctions r1 c = void_fn"
    by (simp_all add: r1_def)
  have f: "changedFlags r1 = changedFlags r"
    by (simp add: r1_def)
  have n: "pinChange c level t r1 = Some r1"
    using p(1) by (simp add: pinChange_def)
  have o1: "channel_pipeline r1 q = channel_pipeline r q" if "q \<noteq> c" for q
    using that by (simp add: channel_pipeline_def r1_def)
  have "snd (lookForChanges r1 u) =
      fold (channel_pipeline r) (filter (\<lambda>p. p \<noteq> c) (dirty_channels (changedFlags r))) u"
    using lookForChanges_skip_none [of r1 c r u, OF p(2) o1] by (simp add: f)
  then have e: "run [Edge c level t_s, Edge c 0 t_f, Poll] (r1, u) =
      Some (fst (lookForChanges r1 u),
        fold (channel_pipeline r) (filter (\<lambda>p. p \<noteq> c) (dirty_channels (changedFlags r))) u)"
    using p(1) by (simp add: pinChange_def prod_eq_iff)
  have h: "handleChange c 0 t_f r1 = Some r3"
    using assms(1) by (simp add: handleChange_falling r3_def)
  have o3: "channel_pipeline r3 q = channel_pipeline r q" if "q \<noteq> c" for q
    using that by (simp add: channel_pipeline_def r3_def r1_def)
  have "filterFunctions r3 c = none"
    by (simp add: r3_def p)
  from lookForChanges_skip_none [of r3 c r u, OF this o3]
  have "snd (lookForChanges r3 u) =
      fold (channel_pipeline r) (filter (\<lambda>p. p \<noteq> c) (dirty_channels (changedFlags r))) u"
    by (simp add: r3_def f dirty_channels_others_set_flag)
  then have l: "lookForChanges r3 u = (fst (lookForChanges r3 u),
      fold (channel_pipeline r) (filter (\<lambda>p. p \<noteq> c) (dirty_channels (changedFlags r))) u)"
    by (simp add: prod_eq_iff)
  from d p n e h l show ?thesis by blast
qed

lemma busy_others: "fold (channel_pipeline busy_receiver)
     (filter (\<lambda>p. p \<noteq> 3) (dirty_channels (changedFlags busy_receiver))) [2000] = [2000, 1200]"
  by (simp add: busy_receiver_def dirty_channels_def upt_PINS_COUNT test_flag_set_flag test_flag_0
        channel_pipeline_def spec_pipeline_def quiet_receiver_def any_def identity_def store_def)

theorem detach_silences_channel_witness:
  "(3::nat) < PINS_COUNT \<and> interruptEnabled busy_receiver 3 \<and>
   onChangeFunctions busy_receiver 3 = store \<and>
   test_flag (changedFlags busy_receiver) 3 \<and> test_flag (changedFlags busy_receiver) 5 \<and>
   (\<exists>r1 r2 r3 r4.
      detach 3 busy_receiver = Some r1 \<and> \<not> interruptEnabled r1 3 \<and>
      filterFunctions r1 3 = none \<and> transformFunctions r1 3 = identity \<and>
      onChangeFunctions r1 3 = void_fn \<and>
      pinChange 3 1 4000 r1 = Some r1 \<and>
      run [Edge 3 1 4000, Edge 3 0 5500, Poll] (r1, [2000]) = Some (r2, [2000, 1200]) \<and>
      handleChange 3 0 5500 r1 = Some r3 \<and>
      lookForChanges r3 [2000] = (r4, [2000, 1200]))"
proof -
  have h: "(3::nat) < PINS_COUNT"
    by (simp add: PINS_COUNT_def)
  have b: "interruptEnabled busy_receiver 3" "onChangeFunctions busy_receiver 3 = store"
    "test_flag (changedFlags busy_receiver) 3" "test_flag (changedFlags busy_receiver) 5"
    by (simp_all add: busy_receiver_def test_flag_set_flag)
  from detach_silences_channel [OF h, of busy_receiver 1 4000 4000 5500 "[2000]"]
  have "\<exists>r1 r2 r3 r4.
      detach 3 busy_receiver = Some r1 \<and> \<not> interruptEnabled r1 3 \<and>
      filterFunctions r1 3 = none \<and> transformFunctions r1 3 = identity \<and>
      onChangeFunctions r1 3 = void_fn \<and>
      pinChange 3 1 4000 r1 = Some r1 \<and>
      run [Edge 3 1 4000, Edge 3 0 5500, Poll] (r1, [2000]) = Some (r2, [2000, 1200]) \<and>
      handleChange 3 0 5500 r1 = Some r3 \<and>
      lookForChanges r3 [2000] = (r4, [2000, 1200])"
    unfolding busy_others .
  with h b show ?thesis by blast
qed

section \<open>Isolation of channels\<close>

lemma same_except_handleChange_self:
  assumes "a < PINS_COUNT"
  shows "\<exists>r'. handleChange a level t r = Some r' \<and> same_except a r' r"
  using assms by (auto simp add: handleChange_def same_except_def bit_set_flag)

lemma same_except_handleChange:
  assumes "same_except a r1 r2"
  shows "rel_option (same_except a) (handleChange p level t r1) (handleChange p level t r2)"
  using assms by (auto simp add: handleChange_def same_except_def bit_set_flag)

lemma same_except_pinChange:
  assumes "same_except a r1 r2"
  shows "rel_option (same_except a) (pinChange p level t r1) (pinChange p level t r2)"
proof -
  have "interruptEnabled r1 p = interruptEnabled r2 p"
    using assms by (simp add: same_except_def)
  then show ?thesis
    using assms same_except_handleChange [OF assms] by (simp add: pinChange_def)
qed

lemma same_except_attach4:
  assumes "same_except a r1 r2"
  shows "rel_option (same_except a) (attach4 p f flt tr r1) (attach4 p f flt tr r2)"
  using assms by (auto simp add: attach4_def same_except_def)

lemma same_except_detach:
  assumes "same_except a r1 r2"
  shows "rel_option (same_except a) (detach p r1) (detach p r2)"
  using assms by (auto simp add: detach_def same_except_def)

lemma fst_lookForChanges: "fst (lookForChanges r u) = r\<lparr>changedFlags := 0\<rparr>"
  by (simp add: lookForChanges_def Let_def)

lemma same_except_lookForChanges:
  assumes "same_except a r1 r2"
  shows "same_except a (fst (lookForChanges r1 u1)) (fst (lookForChanges r2 u2))"
  using assms by (simp add: fst_lookForChanges same_except_def)

lemma rel_option_map_pair:
  "rel_option R x y \<Longrightarrow>
   rel_option (\<lambda>s1 s2. R (fst s1) (fst s2)) (map_option (\<lambda>r'. (r', u1)) x) (map_option (\<lambda>r'. (r', u2)) y)"
  by (cases x; cases y) simp_all

lemma same_except_apply_event:
  assumes "same_except a r1 r2"
  shows "rel_option (\<lambda>s1 s2. same_except a (fst s1) (fst s2))
           (apply_event e (r1, u1)) (apply_event e (r2, u2))"
proof (cases e)
  case (Attach2 p f)
  then show ?thesis
    using same_except_attach4 [OF assms, of p f any identity]
    by (simp add: attach2_def attach3_def rel_option_map_pair)
next
  case (Attach3 p f flt)
  then show ?thesis
    using same_except_attach4 [OF assms, of p f flt identity]
    by (simp add: attach3_def rel_option_map_pair)
next
  case (Attach4 p f flt tr)
  then show ?thesis
    using same_except_attach4 [OF assms, of p f flt tr]
    by (simp add: rel_option_map_pair)
next
  case (Detach p)
  then show ?thesis
    using same_except_detach [OF assms, of p]
    by (simp add: rel_option_map_pair)
next
  case (Edge p level t)
  then show ?thesis
    using same_except_pinChange [OF assms, of p level t]
    by (simp add: rel_option_map_pair)
next
  case Poll
  then show ?thesis
    using same_except_lookForChanges [OF assms] by simp
qed

lemma same_except_run:
  assumes "same_except a (fst s1) (fst s2)"
  shows "rel_option (\<lambda>s1 s2. same_except a (fst s1) (fst s2)) (run es s1) (run es s2)"
  using assms
proof (induction es arbitrary: s1 s2)
  case Nil
  then show ?case by simp
next
  case (Cons e es)
  obtain r1 u1 r2 u2 where s: "s1 = (r1, u1)" "s2 = (r2, u2)"
    by (cases s1, cases s2) simp
  with Cons.prems have "same_except a r1 r2" by simp
  from same_except_apply_event [OF this, of e u1 u2]
  show ?case
    using Cons.IH by (cases "apply_event e (r1, u1)"; cases "apply_event e (r2, u2)") (simp_all add: s)
qed

lemma same_except_view:
  assumes "same_except a r1 r2" and "a \<noteq> b"
  shows "waveStarts r1 b = waveStarts r2 b" "currentValues r1 b = currentValues r2 b"
    "test_flag (changedFlags r1) b = test_flag (changedFlags r2) b"
    "onChangeFunctions r1 b = onChangeFunctions r2 b"
    "filterFunctions r1 b = filterFunctions r2 b"
    "transformFunctions r1 b = transformFunctions r2 b"
  using assms by (simp_all add: same_except_def test_flag_iff)

lemma same_except_dispatch_pin:
  assumes "same_except a r1 r2" and "a \<noteq> b"
  shows "dispatch_pin r1 (changedFlags r1) (currentValues r1) b =
     dispatch_pin r2 (changedFlags r2) (currentValues r2) b"
  by (rule ext) (simp add: dispatch_pin_pipeline same_except_view [OF assms])

text \<open>
  C6. For distinct channels \<open>a\<close> and \<open>b\<close> below \<open>PINS_COUNT\<close>, the interrupt routine
  on an edge of \<open>a\<close> returns and leaves \<open>b\<close>'s wave start, value slot, dirty bit and
  installed functions unchanged. Whatever events follow, on the receiver that saw the
  edge and on the one that did not, they are defined or undefined together, and after
  them \<open>b\<close>'s wave start, value slot, dirty bit and functions are the same on both,
  as is what the loop of \<open>lookForChanges\<close> does for \<open>b\<close>.
\<close>

theorem channel_isolation:
  fixes r :: "('w::len, 'u) receiver"
  assumes "a < PINS_COUNT" and "b < PINS_COUNT" and "a \<noteq> b"
  shows "\<exists>r'. handleChange a level t r = Some r' \<and>
           waveStarts r' b = waveStarts r b \<and>
           currentValues r' b = currentValues r b \<and>
           test_flag (changedFlags r') b = test_flag (changedFlags r) b \<and>
           onChangeFunctions r' b = onChangeFunctions r b \<and>
           filterFunctions r' b = filterFunctions r b \<and>
           transformFunctions r' b = transformFunctions r b \<and>
           (case run es (r', u') of
              None \<Rightarrow> run es (r, u) = None
            | Some (r1, u1) \<Rightarrow>
                (case run es (r, u) of
                   None \<Rightarrow> False
                 | Some (r2, u2) \<Rightarrow>
                     waveStarts r1 b = waveStarts r2 b \<and>
                     currentValues r1 b = currentValues r2 b \<and>
                     test_flag (changedFlags r1) b = test_flag (changedFlags r2) b \<and>
                     onChangeFunctions r1 b = onChangeFunctions r2 b \<and>
                     filterFunctions r1 b = filterFunctions r2 b \<and>
                     transformFunctions r1 b = transformFunctions r2 b \<and>
                     dispatch_pin r1 (changedFlags r1) (currentValues r1) b =
                       dispatch_pin r2 (changedFlags r2) (currentValues r2) b))"
proof -
  from same_except_handleChange_self [OF assms(1)]
  obtain r' where h: "handleChange a level t r = Some r'" and s: "same_except a r' r"
    by blast
  have "rel_option (\<lambda>s1 s2. same_except a (fst s1) (fst s2)) (run es (r', u')) (run es (r, u))"
    using s by (intro same_except_run) simp
  then have "case run es (r', u') of
              None \<Rightarrow> run es (r, u) = None
            | Some (r1, u1) \<Rightarrow>
                (case run es (r, u) of
                   None \<Rightarrow> False
                 | Some (r2, u2) \<Rightarrow>
                     waveStarts r1 b = waveStarts r2 b \<and>
                     currentValues r1 b = currentValues r2 b \<and>
                     test_flag (changedFlags r1) b = test_flag (changedFlags r2) b \<and>
                     onChangeFunctions r1 b = onChangeFunctions r2 b \<and>
                     filterFunctions r1 b = filterFunctions r2 b \<and>
                     transformFunctions r1 b = transformFunctions r2 b \<and>
                     dispatch_pin r1 (changedFlags r1) (currentValues r1) b =
                       dispatch_pin r2 (changedFlags r2) (currentValues r2) b)"
    using assms(3)
    by (cases "run es (r', u')"; cases "run es (r, u)")
      (auto simp add: same_except_view same_except_dispatch_pin)
  with h same_except_view [OF s assms(3)] show ?thesis
    by blast
qed

theorem channel_isolation_witness:
  "(2::nat) < PINS_COUNT \<and> (3::nat) < PINS_COUNT \<and> (2::nat) \<noteq> 3 \<and>
   (\<exists>r'. handleChange 2 0 700 (quiet_receiver :: (32, 32 word list) receiver) = Some r' \<and>
           waveStarts r' 3 = waveStarts (quiet_receiver :: (32, 32 word list) receiver) 3 \<and>
           currentValues r' 3 = currentValues (quiet_receiver :: (32, 32 word list) receiver) 3 \<and>
           test_flag (changedFlags r') 3 =
             test_flag (changedFlags (quiet_receiver :: (32, 32 word list) receiver)) 3 \<and>
           onChangeFunctions r' 3 = onChangeFunctions (quiet_receiver :: (32, 32 word list) receiver) 3 \<and>
           filterFunctions r' 3 = filterFunctions (quiet_receiver :: (32, 32 word list) receiver) 3 \<and>
           transformFunctions r' 3 = transformFunctions (quiet_receiver :: (32, 32 word list) receiver) 3 \<and>
           (case run [Attach2 3 store, Edge 3 1 1000, Edge 3 0 2500] (r', []) of
              None \<Rightarrow> run [Attach2 3 store, Edge 3 1 1000, Edge 3 0 2500]
                        (quiet_receiver :: (32, 32 word list) receiver, []) = None
            | Some (r1, u1) \<Rightarrow>
                (case run [Attach2 3 store, Edge 3 1 1000, Edge 3 0 2500]
                        (quiet_receiver :: (32, 32 word list) receiver, []) of
                   None \<Rightarrow> False
                 | Some (r2, u2) \<Rightarrow>
                     waveStarts r1 3 = waveStarts r2 3 \<and>
                     currentValues r1 3 = currentValues r2 3 \<and>
                     test_flag (changedFlags r1) 3 = test_flag (changedFlags r2) 3 \<and>
                     onChangeFunctions r1 3 = onChangeFunctions r2 3 \<and>
                     filterFunctions r1 3 = filterFunctions r2 3 \<and>
                     transformFunctions r1 3 = transformFunctions r2 3 \<and>
                     dispatch_pin r1 (changedFlags r1) (currentValues r1) 3 =
                       dispatch_pin r2 (changedFlags r2) (currentValues r2) 3)))"
proof -
  have h: "(2::nat) < PINS_COUNT" "(3::nat) < PINS_COUNT" "(2::nat) \<noteq> 3"
    by (simp_all add: PINS_COUNT_def)
  show ?thesis
    by (intro conjI h channel_isolation [OF h])
qed

section \<open>Channel 15\<close>

lemma dispatch_pin_15: "dispatch_pin r flags vals 15 u = u"
  by (simp add: dispatch_pin_pipeline test_flag_15)

lemma same_but_triplet_dispatch_pin:
  assumes "same_but_triplet 15 r1 r2"
  shows "dispatch_pin r1 flags vals pin u = dispatch_pin r2 flags vals pin u"
proof (cases "pin = 15")
  case True
  then show ?thesis by (simp add: dispatch_pin_15)
next
  case False
  with assms show ?thesis
    by (simp add: dispatch_pin_pipeline same_but_triplet_def)
qed

lemma same_but_triplet_dispatch_loop:
  assumes "same_but_triplet 15 r1 r2"
  shows "dispatch_loop r1 flags vals pin u = dispatch_loop r2 flags vals pin u"
proof -
  have "dispatch_pin r1 flags vals = dispatch_pin r2 flags vals"
    by (intro ext same_but_triplet_dispatch_pin assms)
  then show ?thesis
    by (simp add: dispatch_loop_fold)
qed

lemma same_but_triplet_lookForChanges:
  assumes "same_but_triplet 15 r1 r2"
  shows "same_but_triplet 15 (fst (lookForChanges r1 u)) (fst (lookForChanges r2 u)) \<and>
         snd (lookForChanges r1 u) = snd (lookForChanges r2 u)"
proof -
  have f: "changedFlags r1 = changedFlags r2" "currentValues r1 = currentValues r2"
    using assms by (simp_all add: same_but_triplet_def)
  have z: "same_but_triplet 15 (r1\<lparr>changedFlags := 0\<rparr>) (r2\<lparr>changedFlags := 0\<rparr>)"
    using assms by (simp add: same_but_triplet_def)
  show ?thesis
    using assms z f same_but_triplet_dispatch_loop [OF z]
    by (simp add: lookForChanges_def Let_def)
qed

lemma same_but_triplet_attach4:
  assumes "same_but_triplet c r1 r2"
  shows "rel_option (same_but_triplet c) (attach4 p f flt tr r1) (attach4 p f flt tr r2)"
  using assms by (auto simp add: attach4_def same_but_triplet_def)

lemma same_but_triplet_detach:
  assumes "same_but_triplet c r1 r2"
  shows "rel_option (same_but_triplet c) (detach p r1) (detach p r2)"
  using assms by (auto simp add: detach_def same_but_triplet_def)

lemma same_but_triplet_pinChange:
  assumes "same_but_triplet c r1 r2"
  shows "rel_option (same_but_triplet c) (pinChange p level t r1) (pinChange p level t r2)"
  using assms by (auto simp add: pinChange_def handleChange_def same_but_triplet_def)

lemma rel_option_map_world:
  "rel_option R x y \<Longrightarrow>
   rel_option (\<lambda>s1 s2. R (fst s1) (fst s2) \<and> snd s1 = snd s2)
     (map_option (\<lambda>r'. (r', u)) x) (map_option (\<lambda>r'. (r', u)) y)"
  by (cases x; cases y) simp_all

lemma same_but_triplet_apply_event:
  assumes "same_but_triplet 15 r1 r2"
  shows "rel_option (\<lambda>s1 s2. same_but_triplet 15 (fst s1) (fst s2) \<and> snd s1 = snd s2)
           (apply_event e (r1, u)) (apply_event e (r2, u))"
proof (cases e)
  case (Attach2 p f)
  then show ?thesis
    using same_but_triplet_attach4 [OF assms, of p f any identity]
    by (simp add: attach2_def attach3_def rel_option_map_world)
next
  case (Attach3 p f flt)
  then show ?thesis
    using same_but_triplet_attach4 [OF assms, of p f flt identity]
    by (simp add: attach3_def rel_option_map_world)
next
  case (Attach4 p f flt tr)
  then show ?thesis
    using same_but_triplet_attach4 [OF assms, of p f flt tr]
    by (simp add: rel_option_map_world)
next
  case (Detach p)
  then show ?thesis
    using same_but_triplet_detach [OF assms, of p]
    by (simp add: rel_option_map_world)
next
  case (Edge p level t)
  then show ?thesis
    using same_but_triplet_pinChange [OF assms, of p level t]
    by (simp add: rel_option_map_world)
next
  case Poll
  then show ?thesis
    using same_but_triplet_lookForChanges [OF assms] by simp
qed

lemma same_but_triplet_run:
  assumes "same_but_triplet 15 (fst s1) (fst s2)" and "snd s1 = snd s2"
  shows "rel_option (\<lambda>s1 s2. same_but_triplet 15 (fst s1) (fst s2) \<and> snd s1 = snd s2)
           (run es s1) (run es s2)"
  using assms
proof (induction es arbitrary: s1 s2)
  case Nil
  then show ?case by simp
next
  case (Cons e es)
  obtain r1 r2 u where s: "s1 = (r1, u)" "s2 = (r2, u)"
    using Cons.prems(2) by (cases s1, cases s2) simp
  with Cons.prems have "same_but_triplet 15 r1 r2" by simp
  from same_but_triplet_apply_event [OF this, of e u]
  show ?case
    using Cons.IH by (cases "apply_event e (r1, u)"; cases "apply_event e (r2, u)") (simp_all add: s)
qed

text \<open>
  C4. The dirty bit of channel \<open>c\<close> is bit \<open>c + 1\<close> of the 16-bit flag register:
  for every channel below \<open>PINS_COUNT\<close>, the interrupt routine on a falling edge of
  \<open>c\<close> returns with that bit set, when the register has it, and every other bit as it
  was, and the loop of \<open>lookForChanges\<close> runs the pipeline of \<open>c\<close> exactly when that
  bit is set in its copy of the flags. For channel 15 the mask is zero in sixteen bits:
  the flag-set leaves the register as it is, the test is false for every register value,
  a falling edge on channel 15 leaves the flags unchanged, the loop does nothing for pin
  15, and after every sequence of events the application state is the same whatever
  three functions are installed for channel 15: they are never called.
\<close>

theorem dirty_bit_position:
  fixes r :: "('w::len, 'u) receiver"
  assumes "c < PINS_COUNT"
  shows "(\<exists>r'. handleChange c 0 t r = Some r' \<and>
            (\<forall>n. bit (changedFlags r') n \<longleftrightarrow>
                   bit (changedFlags r) n \<or> (n = c + 1 \<and> n < 16))) \<and>
         dispatch_pin r flags vals c u =
           (if bit flags (c + 1)
            then spec_pipeline (filterFunctions r c) (transformFunctions r c)
                   (onChangeFunctions r c) (vals c) u
            else u) \<and>
         (bit (set_flag flags c) n \<longleftrightarrow> bit flags n \<or> (n = c + 1 \<and> n < 16)) \<and>
         (test_flag flags c \<longleftrightarrow> bit flags (c + 1)) \<and>
         word_of_int (flag_mask 15) = (0 :: 16 word) \<and>
         uint flags AND flag_mask 15 = 0 \<and>
         set_flag flags 15 = flags \<and>
         \<not> test_flag flags 15 \<and>
         map_option changedFlags (handleChange 15 level t r) = Some (changedFlags r) \<and>
         dispatch_pin r flags vals 15 u = u \<and>
         map_option snd
           (run es (r\<lparr>onChangeFunctions := (onChangeFunctions r)(15 := f),
                      filterFunctions := (filterFunctions r)(15 := flt),
                      transformFunctions := (transformFunctions r)(15 := tr)\<rparr>, u)) =
         map_option snd (run es (r, u))"
proof -
  have "same_but_triplet 15
          (r\<lparr>onChangeFunctions := (onChangeFunctions r)(15 := f),
             filterFunctions := (filterFunctions r)(15 := flt),
             transformFunctions := (transformFunctions r)(15 := tr)\<rparr>) r"
    by (simp add: same_but_triplet_def)
  then have "rel_option (\<lambda>s1 s2. same_but_triplet 15 (fst s1) (fst s2) \<and> snd s1 = snd s2)
      (run es (r\<lparr>onChangeFunctions := (onChangeFunctions r)(15 := f),
                 filterFunctions := (filterFunctions r)(15 := flt),
                 transformFunctions := (transformFunctions r)(15 := tr)\<rparr>, u))
      (run es (r, u))"
    by (intro same_but_triplet_run) simp_all
  then have run: "map_option snd
           (run es (r\<lparr>onChangeFunctions := (onChangeFunctions r)(15 := f),
                      filterFunctions := (filterFunctions r)(15 := flt),
                      transformFunctions := (transformFunctions r)(15 := tr)\<rparr>, u)) =
         map_option snd (run es (r, u))"
    by (auto simp add: option_rel_Some1 option.rel_sel option.map_sel elim!: option.rel_cases)
  have i: "\<exists>r'. handleChange c 0 t r = Some r' \<and>
            (\<forall>n. bit (changedFlags r') n \<longleftrightarrow>
                   bit (changedFlags r) n \<or> (n = c + 1 \<and> n < 16))"
    using assms by (simp add: handleChange_falling bit_set_flag)
  have d: "dispatch_pin r flags vals c u =
           (if bit flags (c + 1)
            then spec_pipeline (filterFunctions r c) (transformFunctions r c)
                   (onChangeFunctions r c) (vals c) u
            else u)"
    by (simp add: dispatch_pin_pipeline test_flag_iff)
  have z: "word_of_int (flag_mask 15) = (0 :: 16 word)"
    by (simp add: flag_mask_def)
  have t: "uint flags AND flag_mask 15 = 0"
    using test_flag_15 [of flags] by (simp add: test_flag_def)
  have h: "map_option changedFlags (handleChange 15 level t r) = Some (changedFlags r)"
    by (simp add: handleChange_def PINS_COUNT_def set_flag_15)
  have b: "bit (set_flag flags c) n \<longleftrightarrow> bit flags n \<or> (n = c + 1 \<and> n < 16)"
    by (simp add: bit_set_flag)
  have p: "test_flag flags c \<longleftrightarrow> bit flags (c + 1)"
    by (simp add: test_flag_iff)
  show ?thesis
    by (intro conjI i d b p z t set_flag_15 test_flag_15 h dispatch_pin_15 run)
qed

theorem dirty_bit_position_witness:
  "(3::nat) < PINS_COUNT \<and>
   map_option changedFlags (handleChange 3 0 1500 (quiet_receiver :: (32, 32 word list) receiver))
     = Some 16 \<and>
   map_option changedFlags (handleChange 15 0 1500 (quiet_receiver :: (32, 32 word list) receiver))
     = Some 0 \<and>
   (\<exists>r'. handleChange 3 0 1500 (quiet_receiver :: (32, 32 word list) receiver) = Some r' \<and>
      (\<forall>n. bit (changedFlags r') n \<longleftrightarrow>
         bit (changedFlags (quiet_receiver :: (32, 32 word list) receiver)) n \<or>
         (n = 3 + 1 \<and> n < 16)))"
proof -
  have h: "(3::nat) < PINS_COUNT"
    by (simp add: PINS_COUNT_def)
  have a: "map_option changedFlags
      (handleChange 3 0 1500 (quiet_receiver :: (32, 32 word list) receiver)) = Some 16"
    by (simp add: handleChange_def PINS_COUNT_def quiet_receiver_def set_flag_def flag_mask_def)
  have b: "map_option changedFlags
      (handleChange 15 0 1500 (quiet_receiver :: (32, 32 word list) receiver)) = Some 0"
    by (simp add: handleChange_def PINS_COUNT_def quiet_receiver_def set_flag_15)
  from dirty_bit_position [OF h, where r = "quiet_receiver :: (32, 32 word list) receiver"
      and t = 1500]
  have "\<exists>r'. handleChange 3 0 1500 (quiet_receiver :: (32, 32 word list) receiver) = Some r' \<and>
      (\<forall>n. bit (changedFlags r') n \<longleftrightarrow>
         bit (changedFlags (quiet_receiver :: (32, 32 word list) receiver)) n \<or>
         (n = 3 + 1 \<and> n < 16))"
    by (rule conjunct1)
  with h a b show ?thesis by blast
qed

section \<open>Two pulses between two polls\<close>

lemma two_pulses_then_poll:
  fixes r :: "('w::len, 'u) receiver"
  assumes "c < 15" and "interruptEnabled r c" and "changedFlags r = 0"
    and "0 < level1" and "0 < level2"
  shows "run [Poll, Edge c level1 s1, Edge c 0 f1, Edge c level2 s2, Edge c 0 f2, Poll] (r, u) =
    Some (r\<lparr>waveStarts := (waveStarts r)(c := s2),
             currentValues := (currentValues r)(c := f2 - s2),
             changedFlags := 0\<rparr>,
          spec_pipeline (filterFunctions r c) (transformFunctions r c) (onChangeFunctions r c)
            (f2 - s2) u)"
proof -
  have c: "c < PINS_COUNT"
    using assms(1) by (simp add: PINS_COUNT_def)
  have i: "set_flag (set_flag 0 c) c = set_flag 0 c"
    by (rule bit_word_eqI) (auto simp add: bit_set_flag)
  show ?thesis
    using assms
    by (simp add: lookForChanges_clean pinChange_def handleChange_rising [OF c]
          handleChange_falling [OF c] i lookForChanges_single [where c = c] channel_pipeline_def)
qed

text \<open>
  C2. Latest wins, evaluated on channels 15 and 14. With \<open>store\<close> attached by the
  two-argument \<open>attach\<close> (accept-all filter), a poll, two complete pulses of durations
  1000 and 1500, and a second poll: on channel 14 the second poll calls \<open>store\<close> once,
  with 1500; on channel 15 it calls nothing and the stored list stays empty, because the
  falling edges set no flag. The lemma above gives the claimed behaviour for every
  channel below 15.
\<close>

theorem latest_wins_fails_on_channel_15:
  "map_option snd
     (run [Attach2 15 store, Poll, Edge 15 1 0, Edge 15 0 1000, Edge 15 1 2000, Edge 15 0 3500, Poll]
        (quiet_receiver :: (32, 32 word list) receiver, [])) = Some [] \<and>
   map_option snd
     (run [Attach2 14 store, Poll, Edge 14 1 0, Edge 14 0 1000, Edge 14 1 2000, Edge 14 0 3500, Poll]
        (quiet_receiver :: (32, 32 word list) receiver, [])) = Some [1500]"
proof -
  have a: "map_option snd
     (run [Attach2 15 store, Poll, Edge 15 1 0, Edge 15 0 1000, Edge 15 1 2000, Edge 15 0 3500, Poll]
        (quiet_receiver :: (32, 32 word list) receiver, [])) = Some []"
    by (simp add: attach2_def attach3_def attach4_def pinChange_def handleChange_def
          PINS_COUNT_def set_flag_15 lookForChanges_def quiet_receiver_def)
  define q :: "(32, 32 word list) receiver" where "q = quiet_receiver"
  define r14 where "r14 = q\<lparr>interruptEnabled := (interruptEnabled q)(14 := True),
                onChangeFunctions := (onChangeFunctions q)(14 := store),
                filterFunctions := (filterFunctions q)(14 := any),
                transformFunctions := (transformFunctions q)(14 := identity)\<rparr>"
  have x: "run [Attach2 14 store] (q, []) = Some (r14, [])"
    by (simp add: attach2_def attach3_def attach4_def PINS_COUNT_def r14_def)
  have y: "run [Poll, Edge 14 1 0, Edge 14 0 1000, Edge 14 1 2000, Edge 14 0 3500, Poll]
      (r14, []) =
    Some (r14\<lparr>waveStarts := (waveStarts r14)(14 := 2000),
             currentValues := (currentValues r14)(14 := 3500 - 2000),
             changedFlags := 0\<rparr>,
          spec_pipeline (filterFunctions r14 14) (transformFunctions r14 14)
            (onChangeFunctions r14 14) (3500 - 2000) [])"
    by (rule two_pulses_then_poll) (simp_all add: r14_def q_def quiet_receiver_def)
  have "map_option snd
     (run ([Attach2 14 store] @
           [Poll, Edge 14 1 0, Edge 14 0 1000, Edge 14 1 2000, Edge 14 0 3500, Poll]) (q, [])) =
     Some (spec_pipeline (filterFunctions r14 14) (transformFunctions r14 14)
            (onChangeFunctions r14 14) (3500 - 2000) [])"
    by (simp only: run_append x y option.case option.map snd_conv)
  then have b: "map_option snd
     (run [Attach2 14 store, Poll, Edge 14 1 0, Edge 14 0 1000, Edge 14 1 2000, Edge 14 0 3500, Poll]
        (quiet_receiver :: (32, 32 word list) receiver, [])) = Some [1500]"
    by (simp add: q_def r14_def spec_pipeline_def any_def identity_def store_def)
  from a b show ?thesis ..
qed

section \<open>The effect of one edge\<close>

lemma edge_effects_below_15:
  fixes r :: "('w::len, 'u) receiver"
  assumes "c < 15" and "0 < level"
  shows "handleChange c level t r = Some (r\<lparr>waveStarts := (waveStarts r)(c := t)\<rparr>)"
    and "\<exists>r'. handleChange c 0 t r = Some r' \<and>
           currentValues r' = (currentValues r)(c := t - waveStarts r c) \<and>
           test_flag (changedFlags r') c \<and> waveStarts r' = waveStarts r"
  using assms by (simp_all add: handleChange_def PINS_COUNT_def test_flag_set_flag)

text \<open>
  C5. The effect of a rising edge at 1000 and a falling edge at 3000 on channel 15: the
  wave start is 1000 and the value slot holds the duration 2000, as on every channel, but
  the flag register is still zero, the loop's test for channel 15 is false, and no
  channel is dirty. The lemma above gives the claimed effect of both edges, the dirty
  bit included, for every channel below 15.
\<close>

theorem falling_edge_on_channel_15_sets_no_dirty_bit:
  "map_option
     (\<lambda>r'. (waveStarts r' 15, currentValues r' 15, changedFlags r',
            test_flag (changedFlags r') 15, dirty_channels (changedFlags r')))
     (Option.bind (handleChange 15 1 1000 (quiet_receiver :: (32, unit) receiver))
        (handleChange 15 0 3000)) =
   Some (1000, 2000, 0, False, [])"
  by (simp add: handleChange_def PINS_COUNT_def set_flag_15 test_flag_15 quiet_receiver_def
        dirty_channels_0)

section \<open>The snapshot under interrupts\<close>

lemma exec_append:
  "exec (xs @ ys) c = (case exec xs c of None \<Rightarrow> None | Some c' \<Rightarrow> exec ys c')"
  by (induction xs arbitrary: c) (simp_all split: option.splits)

lemma exec_replicate_Suc:
  "exec (replicate (Suc n) MainStep) c = exec (replicate n MainStep) (main_step c)"
  by simp

lemma memcpy_steps:
  assumes "cfg_place c = L112_memcpy i" and "i \<le> PINS_COUNT"
  shows "exec (replicate (Suc (PINS_COUNT - i)) MainStep) c =
     Some (c\<lparr>local_values := (\<lambda>j. if i \<le> j \<and> j < PINS_COUNT
                                 then currentValues (cfg_receiver c) j else local_values c j),
             cfg_place := L115_reset\<rparr>)"
  using assms
proof (induction "PINS_COUNT - i" arbitrary: c i)
  case 0
  then have "i = PINS_COUNT" by simp
  moreover have "(\<lambda>j. if PINS_COUNT \<le> j \<and> j < PINS_COUNT
      then currentValues (cfg_receiver c) j else local_values c j) = local_values c"
    by (rule ext) auto
  ultimately show ?case
    using 0 by (simp add: main_step_def)
next
  case (Suc n)
  then have i: "i < PINS_COUNT" and n: "n = PINS_COUNT - Suc i" by simp_all
  let ?c = "main_step c"
  have p: "cfg_place ?c = L112_memcpy (Suc i)" "cfg_receiver ?c = cfg_receiver c"
    "local_values ?c = (local_values c)(i := currentValues (cfg_receiver c) i)"
    using Suc.prems i by (simp_all add: main_step_def)
  have "exec (replicate (Suc (PINS_COUNT - Suc i)) MainStep) ?c =
     Some (?c\<lparr>local_values := (\<lambda>j. if Suc i \<le> j \<and> j < PINS_COUNT
                                 then currentValues (cfg_receiver ?c) j else local_values ?c j),
             cfg_place := L115_reset\<rparr>)"
    using i by (intro Suc.hyps(1) n p(1)) simp
  moreover have "Suc (PINS_COUNT - i) = Suc (Suc (PINS_COUNT - Suc i))"
    using i by simp
  moreover have "?c\<lparr>local_values := (\<lambda>j. if Suc i \<le> j \<and> j < PINS_COUNT
                                 then currentValues (cfg_receiver ?c) j else local_values ?c j),
             cfg_place := L115_reset\<rparr> =
      c\<lparr>local_values := (\<lambda>j. if i \<le> j \<and> j < PINS_COUNT
                                 then currentValues (cfg_receiver c) j else local_values c j),
             cfg_place := L115_reset\<rparr>"
    using Suc.prems i by (auto simp add: main_step_def fun_eq_iff)
  ultimately show ?case
    by (simp del: replicate.simps add: exec_replicate_Suc)
qed

lemma critical_section_run:
  assumes "cfg_place c = L110_copy_flags"
  shows "exec (replicate (PINS_COUNT + 3) MainStep) c =
     Some (c\<lparr>local_flags := changedFlags (cfg_receiver c),
             local_values := (\<lambda>j. if j < PINS_COUNT then currentValues (cfg_receiver c) j
                                  else local_values c j),
             cfg_receiver := (cfg_receiver c)\<lparr>changedFlags := 0\<rparr>,
             cfg_place := L118_interrupts\<rparr>)"
proof -
  let ?c1 = "c\<lparr>local_flags := changedFlags (cfg_receiver c), cfg_place := L112_memcpy 0\<rparr>"
  have "PINS_COUNT + 3 = 1 + (Suc (PINS_COUNT - 0) + 1)"
    by simp
  then have "replicate (PINS_COUNT + 3) MainStep =
      replicate 1 MainStep @ replicate (Suc (PINS_COUNT - 0)) MainStep @ replicate 1 MainStep"
    by (simp only: replicate_add)
  then have n: "replicate (PINS_COUNT + 3) MainStep =
      [MainStep] @ replicate (Suc (PINS_COUNT - 0)) MainStep @ [MainStep]"
    by simp
  have 1: "exec [MainStep] c = Some ?c1"
    using assms by (simp add: main_step_def)
  have 2: "exec (replicate (Suc (PINS_COUNT - 0)) MainStep) ?c1 =
     Some (?c1\<lparr>local_values := (\<lambda>j. if 0 \<le> j \<and> j < PINS_COUNT
                                 then currentValues (cfg_receiver ?c1) j else local_values ?c1 j),
             cfg_place := L115_reset\<rparr>)"
    by (rule memcpy_steps) simp_all
  show ?thesis
    unfolding n by (simp only: exec_append 1 2 option.case) (simp add: main_step_def cong: if_cong)
qed

lemma critical_section_forced:
  assumes "\<not> cfg_irq c" and "in_critical_section (cfg_place c)"
    and "exec as c = Some fin" and "snapshot_taken (cfg_place fin)"
  shows "\<exists>post. as = replicate (steps_to_interrupts (cfg_place c)) MainStep @ post"
  using assms
proof (induction as arbitrary: c)
  case Nil
  then show ?case
    by (cases "cfg_place c") simp_all
next
  case (Cons a as)
  show ?case
  proof (cases a)
    case (Interrupt pin level t)
    with Cons.prems show ?thesis by simp
  next
    case MainStep
    with Cons.prems have e: "exec as (main_step c) = Some fin" by simp
    have i: "\<not> cfg_irq (main_step c)"
      using Cons.prems(1,2) by (cases "cfg_place c") (simp_all add: main_step_def)
    show ?thesis
    proof (cases "cfg_place c = L115_reset")
      case True
      then show ?thesis
        using MainStep by simp
    next
      case False
      then have "in_critical_section (cfg_place (main_step c)) \<and>
          steps_to_interrupts (cfg_place c) = Suc (steps_to_interrupts (cfg_place (main_step c)))"
        using Cons.prems(2) by (cases "cfg_place c") (auto simp add: main_step_def)
      with Cons.IH [OF i _ e Cons.prems(4)] MainStep show ?thesis
        by auto
    qed
  qed
qed

lemma step_Interrupt_place:
  assumes "step (Interrupt pin level t) c = Some c'"
  shows "cfg_place c' = cfg_place c \<and> cfg_irq c' = cfg_irq c \<and>
         local_flags c' = local_flags c \<and> local_values c' = local_values c \<and>
         cfg_world c' = cfg_world c"
  using assms by (auto split: if_splits)

lemma returned_stays:
  assumes "cfg_place c = Returned" and "exec as c = Some fin"
  shows "cfg_place fin = Returned"
  using assms
proof (induction as arbitrary: c)
  case Nil
  then show ?case by simp
next
  case (Cons a as)
  from Cons.prems(2) obtain c' where s: "step a c = Some c'" and e: "exec as c' = Some fin"
    by (auto split: option.splits)
  have "cfg_place c' = Returned"
  proof (cases a)
    case MainStep
    with s Cons.prems(1) show ?thesis by (auto simp add: main_step_def)
  next
    case (Interrupt pin level t)
    with s Cons.prems(1) show ?thesis by (auto split: if_splits)
  qed
  then show ?case using e by (rule Cons.IH)
qed

lemma reach_copy_flags:
  assumes "cfg_place c = L105_test \<or> cfg_place c = L107_noInterrupts"
    and "exec as c = Some fin" and "snapshot_taken (cfg_place fin)"
  shows "\<exists>pre rest mid. as = pre @ rest \<and> exec pre c = Some mid \<and>
           cfg_place mid = L110_copy_flags \<and> \<not> cfg_irq mid \<and> exec rest mid = Some fin"
  using assms
proof (induction as arbitrary: c)
  case Nil
  then show ?case by auto
next
  case (Cons a as)
  from Cons.prems(2) obtain c' where s: "step a c = Some c'" and e: "exec as c' = Some fin"
    by (auto split: option.splits)
  consider (same) "cfg_place c' = L105_test \<or> cfg_place c' = L107_noInterrupts"
    | (returned) "cfg_place c' = Returned"
    | (entered) "cfg_place c' = L110_copy_flags" "\<not> cfg_irq c'"
  proof (cases a)
    case MainStep
    with s Cons.prems(1) show ?thesis
      by (auto simp add: main_step_def intro: same returned entered split: if_splits)
  next
    case (Interrupt pin level t)
    with s Cons.prems(1) same show ?thesis by (auto split: if_splits)
  qed
  then show ?case
  proof cases
    case same
    from Cons.IH [OF same e Cons.prems(3)]
    obtain pre rest mid where "as = pre @ rest" "exec pre c' = Some mid"
      "cfg_place mid = L110_copy_flags" "\<not> cfg_irq mid" "exec rest mid = Some fin"
      by blast
    then have "a # as = (a # pre) @ rest \<and> exec (a # pre) c = Some mid \<and>
        cfg_place mid = L110_copy_flags \<and> \<not> cfg_irq mid \<and> exec rest mid = Some fin"
      using s by simp
    then show ?thesis by blast
  next
    case returned
    from returned_stays [OF returned e] Cons.prems(3) show ?thesis by simp
  next
    case entered
    then have "a # as = [a] @ as \<and> exec [a] c = Some c' \<and>
        cfg_place c' = L110_copy_flags \<and> \<not> cfg_irq c' \<and> exec as c' = Some fin"
      using s e by simp
    then show ?thesis by blast
  qed
qed

lemma locals_kept:
  assumes "after_copies (cfg_place c)" and "exec as c = Some fin"
  shows "local_flags fin = local_flags c \<and> local_values fin = local_values c"
  using assms
proof (induction as arbitrary: c)
  case Nil
  then show ?case by simp
next
  case (Cons a as)
  from Cons.prems(2) obtain c' where s: "step a c = Some c'" and e: "exec as c' = Some fin"
    by (auto split: option.splits)
  have "after_copies (cfg_place c') \<and> local_flags c' = local_flags c \<and>
      local_values c' = local_values c"
  proof (cases a)
    case MainStep
    with s Cons.prems(1) show ?thesis
      by (cases "cfg_place c") (auto simp add: main_step_def)
  next
    case (Interrupt pin level t)
    with s Cons.prems(1) show ?thesis by (auto split: if_splits)
  qed
  with Cons.IH [OF _ e] show ?case by simp
qed

text \<open>
  C1. Take any schedule of steps of one \<open>lookForChanges\<close> call and interrupt-routine
  runs that has a run and has brought the call past its copies. Then there is one
  instant of the run, the configuration \<open>mid\<close> right after \<open>noInterrupts()\<close>, such
  that the schedule continues from it with the steps of the critical section and no
  interrupt among them; the local \<open>flags\<close> is the flag register of that instant and
  the local \<open>values\<close> holds the value slot of that instant for every pin; and the
  receiver at \<open>interrupts()\<close> is the receiver of that instant with the flags cleared.
  So every value is copied together with its flag, and the flags cleared are the flags
  copied.
\<close>

theorem snapshot_atomic:
  assumes "exec sched (call_lookForChanges r u junk_flags junk_values) = Some fin"
    and "snapshot_taken (cfg_place fin)"
  shows "\<exists>pre post mid aft.
      sched = pre @ replicate (PINS_COUNT + 3) MainStep @ post \<and>
      exec pre (call_lookForChanges r u junk_flags junk_values) = Some mid \<and>
      cfg_place mid = L110_copy_flags \<and>
      exec (replicate (PINS_COUNT + 3) MainStep) mid = Some aft \<and>
      cfg_place aft = L118_interrupts \<and>
      cfg_receiver aft = (cfg_receiver mid)\<lparr>changedFlags := 0\<rparr> \<and>
      exec post aft = Some fin \<and>
      local_flags fin = changedFlags (cfg_receiver mid) \<and>
      (\<forall>pin<PINS_COUNT. local_values fin pin = currentValues (cfg_receiver mid) pin)"
proof -
  let ?c0 = "call_lookForChanges r u junk_flags junk_values"
  have "cfg_place ?c0 = L105_test \<or> cfg_place ?c0 = L107_noInterrupts"
    by (simp add: call_lookForChanges_def)
  from reach_copy_flags [OF this assms]
  obtain pre rest mid where a: "sched = pre @ rest" "exec pre ?c0 = Some mid"
    "cfg_place mid = L110_copy_flags" "\<not> cfg_irq mid" "exec rest mid = Some fin"
    by blast
  from critical_section_forced [OF a(4) _ a(5) assms(2)] a(3)
  obtain post where p: "rest = replicate (PINS_COUNT + 3) MainStep @ post"
    by auto
  define aft where "aft = mid\<lparr>local_flags := changedFlags (cfg_receiver mid),
             local_values := (\<lambda>j. if j < PINS_COUNT then currentValues (cfg_receiver mid) j
                                  else local_values mid j),
             cfg_receiver := (cfg_receiver mid)\<lparr>changedFlags := 0\<rparr>,
             cfg_place := L118_interrupts\<rparr>"
  have r: "exec (replicate (PINS_COUNT + 3) MainStep) mid = Some aft"
    unfolding aft_def using a(3) by (rule critical_section_run)
  with a(5) have f: "exec post aft = Some fin"
    by (simp add: p exec_append)
  have "after_copies (cfg_place aft)"
    by (simp add: aft_def)
  from locals_kept [OF this f]
  have l: "local_flags fin = changedFlags (cfg_receiver mid)"
    "\<forall>pin<PINS_COUNT. local_values fin pin = currentValues (cfg_receiver mid) pin"
    by (simp_all add: aft_def)
  have "cfg_place aft = L118_interrupts"
    "cfg_receiver aft = (cfg_receiver mid)\<lparr>changedFlags := 0\<rparr>"
    by (simp_all add: aft_def)
  with a(1,2,3) p r f l show ?thesis
    by blast
qed

theorem snapshot_atomic_witness:
  "\<exists>fin.
     exec ([MainStep, Interrupt 3 0 1600, MainStep] @ replicate (PINS_COUNT + 3) MainStep @
           [MainStep, Interrupt 3 1 5000])
       (call_lookForChanges pending_receiver [] 0 (\<lambda>pin. 0)) = Some fin \<and>
     snapshot_taken (cfg_place fin) \<and>
     (\<exists>pre post mid aft.
        [MainStep, Interrupt 3 0 1600, MainStep] @ replicate (PINS_COUNT + 3) MainStep @
           [MainStep, Interrupt 3 1 5000] = pre @ replicate (PINS_COUNT + 3) MainStep @ post \<and>
        exec pre (call_lookForChanges pending_receiver [] 0 (\<lambda>pin. 0)) = Some mid \<and>
        cfg_place mid = L110_copy_flags \<and>
        exec (replicate (PINS_COUNT + 3) MainStep) mid = Some aft \<and>
        cfg_place aft = L118_interrupts \<and>
        cfg_receiver aft = (cfg_receiver mid)\<lparr>changedFlags := 0\<rparr> \<and>
        exec post aft = Some fin \<and>
        local_flags fin = changedFlags (cfg_receiver mid) \<and>
        (\<forall>pin<PINS_COUNT. local_values fin pin = currentValues (cfg_receiver mid) pin))"
proof -
  let ?c0 = "call_lookForChanges pending_receiver [] 0 (\<lambda>pin. 0)"
  define mid where "mid = ?c0\<lparr>cfg_receiver := pending_receiver
      \<lparr>currentValues := (currentValues pending_receiver)(3 := 1600),
       changedFlags := set_flag (set_flag 0 2) 3\<rparr>, cfg_irq := False,
       cfg_place := L110_copy_flags\<rparr>"
  define aft where "aft = mid\<lparr>local_flags := changedFlags (cfg_receiver mid),
             local_values := (\<lambda>j. if j < PINS_COUNT then currentValues (cfg_receiver mid) j
                                  else local_values mid j),
             cfg_receiver := (cfg_receiver mid)\<lparr>changedFlags := 0\<rparr>,
             cfg_place := L118_interrupts\<rparr>"
  define fin where "fin = aft\<lparr>cfg_irq := True, cfg_place := L121_loop 0,
      cfg_receiver := (cfg_receiver aft)\<lparr>waveStarts := (waveStarts (cfg_receiver aft))(3 := 5000)\<rparr>\<rparr>"
  have 1: "exec [MainStep, Interrupt 3 0 1600, MainStep] ?c0 = Some mid"
    by (simp add: mid_def call_lookForChanges_def main_step_def pending_receiver_def
          set_flag_nonzero pinChange_def handleChange_def PINS_COUNT_def quiet_receiver_def)
  have 2: "exec (replicate (PINS_COUNT + 3) MainStep) mid = Some aft"
    unfolding aft_def by (rule critical_section_run) (simp add: mid_def)
  have 3: "exec [MainStep, Interrupt 3 1 5000] aft = Some fin"
    by (simp add: fin_def aft_def mid_def call_lookForChanges_def main_step_def
          pending_receiver_def pinChange_def handleChange_def PINS_COUNT_def)
  have e: "exec ([MainStep, Interrupt 3 0 1600, MainStep] @ replicate (PINS_COUNT + 3) MainStep @
           [MainStep, Interrupt 3 1 5000]) ?c0 = Some fin"
    by (simp only: exec_append 1 2 3 option.case)
  have t: "snapshot_taken (cfg_place fin)"
    by (simp add: fin_def)
  from e t snapshot_atomic [OF e t] show ?thesis
    by blast
qed

text \<open>
  Without interrupts the steps of the call do what \<open>lookForChanges\<close> above does.
\<close>

lemma loop_steps:
  assumes "cfg_place c = L121_loop pin" and "pin \<le> PINS_COUNT"
  shows "exec (replicate (Suc (PINS_COUNT - pin)) MainStep) c =
     Some (c\<lparr>cfg_world :=
               dispatch_loop (cfg_receiver c) (local_flags c) (local_values c) pin (cfg_world c),
             cfg_place := Returned\<rparr>)"
  using assms
proof (induction "PINS_COUNT - pin" arbitrary: c pin)
  case 0
  then have "pin = PINS_COUNT" by simp
  with 0 show ?case
    by (subst dispatch_loop.simps) (simp add: main_step_def)
next
  case (Suc n)
  then have i: "pin < PINS_COUNT" and n: "n = PINS_COUNT - Suc pin" by simp_all
  let ?c = "main_step c"
  have p: "cfg_place ?c = L121_loop (Suc pin)" "cfg_receiver ?c = cfg_receiver c"
    "local_flags ?c = local_flags c" "local_values ?c = local_values c"
    "cfg_world ?c = dispatch_pin (cfg_receiver c) (local_flags c) (local_values c) pin (cfg_world c)"
    using Suc.prems i by (simp_all add: main_step_def)
  have "exec (replicate (Suc (PINS_COUNT - Suc pin)) MainStep) ?c =
     Some (?c\<lparr>cfg_world :=
               dispatch_loop (cfg_receiver ?c) (local_flags ?c) (local_values ?c) (Suc pin)
                 (cfg_world ?c),
             cfg_place := Returned\<rparr>)"
    using i by (intro Suc.hyps(1) n p(1)) simp
  moreover have "Suc (PINS_COUNT - pin) = Suc (Suc (PINS_COUNT - Suc pin))"
    using i by simp
  moreover have "?c\<lparr>cfg_world :=
               dispatch_loop (cfg_receiver ?c) (local_flags ?c) (local_values ?c) (Suc pin)
                 (cfg_world ?c),
             cfg_place := Returned\<rparr> =
      c\<lparr>cfg_world :=
               dispatch_loop (cfg_receiver c) (local_flags c) (local_values c) pin (cfg_world c),
             cfg_place := Returned\<rparr>"
    using Suc.prems i
    by (subst (2) dispatch_loop.simps) (simp add: p, simp add: main_step_def)
  ultimately show ?case
    by (simp del: replicate.simps add: exec_replicate_Suc)
qed

lemma dispatch_loop_vals_cong:
  assumes "\<And>p. p < PINS_COUNT \<Longrightarrow> vals1 p = vals2 p"
  shows "dispatch_loop r flags vals1 pin u = dispatch_loop r flags vals2 pin u"
proof -
  have "fold (dispatch_pin r flags vals1) [pin..<PINS_COUNT] u =
      fold (dispatch_pin r flags vals2) [pin..<PINS_COUNT] u"
    by (rule fold_cong) (auto simp add: fun_eq_iff dispatch_pin_def assms)
  then show ?thesis
    by (simp add: dispatch_loop_fold)
qed

lemma lookForChanges_steps:
  "\<exists>n fin. exec (replicate n MainStep) (call_lookForChanges r u junk_flags junk_values) = Some fin \<and>
     cfg_place fin = Returned \<and> (cfg_receiver fin, cfg_world fin) = lookForChanges r u"
proof (cases "changedFlags r = 0")
  case True
  let ?c0 = "call_lookForChanges r u junk_flags junk_values"
  have "exec (replicate 1 MainStep) ?c0 = Some (?c0\<lparr>cfg_place := Returned\<rparr>)"
    using True by (simp add: call_lookForChanges_def main_step_def)
  moreover have "(cfg_receiver (?c0\<lparr>cfg_place := Returned\<rparr>), cfg_world (?c0\<lparr>cfg_place := Returned\<rparr>)) =
      lookForChanges r u"
    using True by (simp add: call_lookForChanges_def lookForChanges_def)
  ultimately show ?thesis
    by (intro exI [of _ 1] exI [of _ "?c0\<lparr>cfg_place := Returned\<rparr>"]) simp
next
  case False
  let ?c0 = "call_lookForChanges r u junk_flags junk_values"
  let ?vals = "\<lambda>j. if j < PINS_COUNT then currentValues r j else junk_values j"
  define mid where "mid = ?c0\<lparr>cfg_irq := False, cfg_place := L110_copy_flags\<rparr>"
  define aft where "aft = mid\<lparr>local_flags := changedFlags r, local_values := ?vals,
             cfg_receiver := r\<lparr>changedFlags := 0\<rparr>, cfg_place := L118_interrupts\<rparr>"
  define lp where "lp = aft\<lparr>cfg_irq := True, cfg_place := L121_loop 0\<rparr>"
  define fin where "fin = lp\<lparr>cfg_world :=
      dispatch_loop (r\<lparr>changedFlags := 0\<rparr>) (changedFlags r) ?vals 0 u, cfg_place := Returned\<rparr>"
  define k where "k = PINS_COUNT + 3"
  define m where "m = Suc (PINS_COUNT - 0)"
  have 1: "exec (replicate 2 MainStep) ?c0 = Some mid"
    using False by (simp add: numeral_2_eq_2 mid_def call_lookForChanges_def main_step_def)
  have "exec (replicate (PINS_COUNT + 3) MainStep) mid =
     Some (mid\<lparr>local_flags := changedFlags (cfg_receiver mid),
             local_values := (\<lambda>j. if j < PINS_COUNT then currentValues (cfg_receiver mid) j
                                  else local_values mid j),
             cfg_receiver := (cfg_receiver mid)\<lparr>changedFlags := 0\<rparr>,
             cfg_place := L118_interrupts\<rparr>)"
    by (rule critical_section_run) (simp add: mid_def)
  then have 2: "exec (replicate k MainStep) mid = Some aft"
    by (simp add: k_def aft_def mid_def call_lookForChanges_def cong: if_cong)
  have 3: "exec (replicate 1 MainStep) aft = Some lp"
    by (simp add: lp_def aft_def main_step_def)
  have "exec (replicate (Suc (PINS_COUNT - 0)) MainStep) lp =
     Some (lp\<lparr>cfg_world :=
               dispatch_loop (cfg_receiver lp) (local_flags lp) (local_values lp) 0 (cfg_world lp),
             cfg_place := Returned\<rparr>)"
    by (rule loop_steps) (simp_all add: lp_def)
  then have 4: "exec (replicate m MainStep) lp = Some fin"
    by (simp add: m_def fin_def lp_def aft_def mid_def call_lookForChanges_def)
  have "exec (replicate (2 + (k + (1 + m))) MainStep) ?c0 = Some fin"
    by (simp only: replicate_add exec_append 1 2 3 4 option.case)
  moreover have "dispatch_loop (r\<lparr>changedFlags := 0\<rparr>) (changedFlags r) ?vals 0 u =
      dispatch_loop (r\<lparr>changedFlags := 0\<rparr>) (changedFlags r) (currentValues r) 0 u"
    by (rule dispatch_loop_vals_cong) simp
  then have "(cfg_receiver fin, cfg_world fin) = lookForChanges r u"
    using False
    by (simp add: fin_def lp_def aft_def mid_def call_lookForChanges_def lookForChanges_def Let_def)
  moreover have "cfg_place fin = Returned"
    by (simp add: fin_def)
  ultimately show ?thesis
    by blast
qed

end
